theory Spec2Isabelle
  imports Main
begin

section \<open>Bytes, strings and errors\<close>

text \<open>
  Go strings and byte slices are sequences of bytes; both are modelled as \<open>char list\<close>
  (an Isabelle \<open>char\<close> is one byte).  \<open>of_char\<close> reads a byte as a number.
\<close>

type_synonym bytes = "char list"

definition LF :: char where
  "LF = CHR 0x0A"

definition CR :: char where
  "CR = CHR 0x0D"

text \<open>
  The error values that occur: \<open>io.EOF\<close>, any other failure of a \<open>Read\<close>
  (\<open>ErrIO\<close>), the errors of package \<open>bufio\<close>, \<open>io.ErrNoProgress\<close>, and
  the failure of \<open>os.Open\<close>.
\<close>

datatype error =
    EOF
  | ErrIO
  | ErrTooLong
  | ErrAdvanceTooFar
  | ErrFinalToken
  | ErrNoProgress
  | ErrOpen

text \<open>The two run-time panics that the code paths below can name.\<close>

datatype panic =
    IndexOutOfRange
  | TooManyEmptyTokens

section \<open>Streams (\<open>io.Reader\<close>)\<close>

text \<open>
  A stream is the content it will still deliver, in the pieces in which successive calls
  of \<open>Read\<close> deliver it, and the error that \<open>Read\<close> reports once the content is used
  up: \<open>EOF\<close> for a stream that ends normally, \<open>ErrIO\<close> for one that fails.  Reading
  is destructive: \<open>Read\<close> returns the stream without the bytes it delivered.
\<close>

record reader =
  pending :: "bytes list"
  closing :: error

definition Read :: "reader \<Rightarrow> nat \<Rightarrow> bytes \<times> error option \<times> reader" where
  "Read rd cap =
     (case pending rd of
        [] \<Rightarrow> ([], Some (closing rd), rd)
      | c # cs \<Rightarrow>
          if length c \<le> cap then (c, None, rd\<lparr>pending := cs\<rparr>)
          else (take cap c, None, rd\<lparr>pending := drop cap c # cs\<rparr>))"

definition contents :: "reader \<Rightarrow> bytes" where
  "contents rd = concat (pending rd)"

text \<open>\<open>strings.NewReader s\<close>: a stream over the bytes of \<open>s\<close>, ending with \<open>EOF\<close>.\<close>

definition strings_NewReader :: "bytes \<Rightarrow> reader" where
  "strings_NewReader s = \<lparr>pending = (if s = [] then [] else [s]), closing = EOF\<rparr>"

text \<open>\<open>strings.Join\<close>.\<close>

fun strings_Join :: "bytes list \<Rightarrow> bytes \<Rightarrow> bytes" where
  "strings_Join [] sep = []"
| "strings_Join [e] sep = e"
| "strings_Join (e # es) sep = e @ concat (map (\<lambda>s. sep @ s) es)"

text \<open>
  The file system is the environment of \<open>os.Open\<close>: a path that can be opened gives a
  stream over the file, any other path an error.
\<close>

type_synonym filesystem = "bytes \<Rightarrow> reader option"

definition os_Open :: "filesystem \<Rightarrow> bytes \<Rightarrow> error + reader" where
  "os_Open fs path = (case fs path of None \<Rightarrow> Inl ErrOpen | Some f \<Rightarrow> Inr f)"

section \<open>UTF-8 and \<open>bufio.ScanRunes\<close>\<close>

text \<open>
  \<open>leadByte b\<close> is the entry of table \<open>first\<close> of package \<open>unicode/utf8\<close> for a
  byte that starts a multi-byte encoding: the length of the encoding and the range the
  second byte must lie in.  It is \<open>None\<close> for an ASCII byte and for a byte that starts no
  encoding.
\<close>

definition leadByte :: "nat \<Rightarrow> (nat \<times> nat \<times> nat) option" where
  "leadByte b =
     (if b < 0xC2 then None
      else if b < 0xE0 then Some (2, 0x80, 0xBF)
      else if b = 0xE0 then Some (3, 0xA0, 0xBF)
      else if b < 0xED then Some (3, 0x80, 0xBF)
      else if b = 0xED then Some (3, 0x80, 0x9F)
      else if b < 0xF0 then Some (3, 0x80, 0xBF)
      else if b = 0xF0 then Some (4, 0x90, 0xBF)
      else if b < 0xF4 then Some (4, 0x80, 0xBF)
      else if b = 0xF4 then Some (4, 0x80, 0x8F)
      else None)"

definition contByte :: "nat \<Rightarrow> bool" where
  "contByte b = (0x80 \<le> b \<and> b \<le> 0xBF)"

text \<open>The width that \<open>utf8.DecodeRune\<close> returns (its second result).\<close>

definition DecodeRune_width :: "bytes \<Rightarrow> nat" where
  "DecodeRune_width p =
     (let n = length p in
      if n < 1 then 0
      else case leadByte (of_char (p ! 0)) of
        None \<Rightarrow> 1
      | Some (sz, lo, hi) \<Rightarrow>
          if n < sz then 1
          else if of_char (p ! 1) < lo \<or> hi < of_char (p ! 1) then 1
          else if sz \<le> 2 then 2
          else if \<not> contByte (of_char (p ! 2)) then 1
          else if sz \<le> 3 then 3
          else if \<not> contByte (of_char (p ! 3)) then 1
          else 4)"

text \<open>\<open>utf8.FullRune\<close>: do the bytes begin with a full encoding, valid or not?\<close>

definition FullRune :: "bytes \<Rightarrow> bool" where
  "FullRune p =
     (let n = length p in
      if n = 0 then False
      else case leadByte (of_char (p ! 0)) of
        None \<Rightarrow> True
      | Some (sz, lo, hi) \<Rightarrow>
          if n \<ge> sz then True
          else if n > 1 \<and> (of_char (p ! 1) < lo \<or> hi < of_char (p ! 1)) then True
          else if n > 2 \<and> \<not> contByte (of_char (p ! 2)) then True
          else False)"

text \<open>The encoding of U+FFFD, which \<open>ScanRunes\<close> returns for a byte that is no encoding.\<close>

definition errorRune :: bytes where
  "errorRune = [CHR 0xEF, CHR 0xBF, CHR 0xBD]"

text \<open>
  What a split function returns: the number of bytes to advance, the token (\<open>None\<close> is
  Go's \<open>nil\<close>) and the error.
\<close>

type_synonym split_result = "nat \<times> bytes option \<times> error option"

definition ScanRunes :: "bytes \<Rightarrow> bool \<Rightarrow> panic + split_result" where
  "ScanRunes data atEOF =
     (if atEOF \<and> length data = 0 then Inr (0, None, None)
      else if length data = 0 then Inl IndexOutOfRange
      else if of_char (data ! 0) < (0x80 :: nat) then Inr (1, Some (take 1 data), None)
      else
        let width = DecodeRune_width data in
        if width > 1 then Inr (width, Some (take width data), None)
        else if \<not> atEOF \<and> \<not> FullRune data then Inr (0, None, None)
        else Inr (1, Some errorRune, None))"

section \<open>\<open>bufio.Scanner\<close>\<close>

text \<open>
  The scanner's buffer is kept as its length \<open>buflen\<close>, the index \<open>start\<close> and the
  bytes \<open>window\<close> between \<open>start\<close> and \<open>end\<close> (so \<open>end = start + length window\<close>);
  the bytes outside the window are never read again.
\<close>

record Scanner =
  r :: reader
  buflen :: nat
  start :: nat
  window :: bytes
  token :: "bytes option"
  err :: "error option"
  empties :: nat
  isDone :: bool

definition maxTokenSize :: nat where
  "maxTokenSize = 64 * 1024"

definition startBufSize :: nat where
  "startBufSize = 4096"

definition maxConsecutiveEmptyReads :: nat where
  "maxConsecutiveEmptyReads = 100"

definition maxInt :: nat where
  "maxInt = 2 ^ 63 - 1"

definition NewScanner :: "reader \<Rightarrow> Scanner" where
  "NewScanner rd =
     \<lparr>r = rd, buflen = 0, start = 0, window = [], token = None, err = None,
      empties = 0, isDone = False\<rparr>"

definition Text :: "Scanner \<Rightarrow> bytes" where
  "Text s = (case token s of None \<Rightarrow> [] | Some t \<Rightarrow> t)"

definition setErr :: "error \<Rightarrow> Scanner \<Rightarrow> Scanner" where
  "setErr e s = (if err s = None \<or> err s = Some EOF then s\<lparr>err := Some e\<rparr> else s)"

text \<open>
  A split function, with the state \<open>'st\<close> of the object it is a method of passed through.
\<close>

type_synonym 'st SplitFunc = "'st \<Rightarrow> bytes \<Rightarrow> bool \<Rightarrow> panic + (split_result \<times> 'st)"

text \<open>
  The first part of the loop of \<open>Scan\<close>: call the split function on the window.  The result
  is either the value \<open>Scan\<close> returns, or the scanner with which the loop goes on.
\<close>

datatype 'st step = Return bool 'st Scanner | Continue 'st Scanner

definition tryToken :: "'st SplitFunc \<Rightarrow> 'st \<Rightarrow> Scanner \<Rightarrow> panic + 'st step" where
  "tryToken split st s =
     (case split st (window s) (err s \<noteq> None) of
        Inl p \<Rightarrow> Inl p
      | Inr ((advance, tok, e), st') \<Rightarrow>
          (case e of
             Some e' \<Rightarrow>
               if e' = ErrFinalToken
               then Inr (Return (tok \<noteq> None) st' (s\<lparr>token := tok, isDone := True\<rparr>))
               else Inr (Return False st' (setErr e' s))
           | None \<Rightarrow>
               if advance > length (window s)
               then Inr (Return False st' (setErr ErrAdvanceTooFar s))
               else
                 let s1 = s\<lparr>start := start s + advance,
                            window := drop advance (window s), token := tok\<rparr> in
                 if tok \<noteq> None then
                   if err s = None \<or> advance > 0
                   then Inr (Return True st' (s1\<lparr>empties := 0\<rparr>))
                   else if empties s + 1 > maxConsecutiveEmptyReads then Inl TooManyEmptyTokens
                   else Inr (Return True st' (s1\<lparr>empties := empties s + 1\<rparr>))
                 else Inr (Continue st' s1)))"

text \<open>Shift the data to the beginning of the buffer.\<close>

definition shift :: "Scanner \<Rightarrow> Scanner" where
  "shift s =
     (if start s > 0 \<and>
         (start s + length (window s) = buflen s \<or> start s > buflen s div 2)
      then s\<lparr>start := 0\<rparr> else s)"

text \<open>Resize a full buffer; \<open>Inl\<close> when it cannot grow any more.\<close>

definition grow :: "Scanner \<Rightarrow> Scanner + Scanner" where
  "grow s =
     (if start s + length (window s) = buflen s then
        if buflen s \<ge> maxTokenSize \<or> buflen s > maxInt div 2 then Inl (setErr ErrTooLong s)
        else
          let newSize = buflen s * 2;
              newSize = (if newSize = 0 then startBufSize else newSize);
              newSize = min newSize maxTokenSize
          in Inr (s\<lparr>buflen := newSize, start := 0\<rparr>)
      else Inr s)"

text \<open>Read some input into the free end of the buffer.\<close>

function fill :: "Scanner \<Rightarrow> nat \<Rightarrow> Scanner" where
  "fill s loop =
     (case Read (r s) (buflen s - (start s + length (window s))) of
        (bs, e, rd') \<Rightarrow>
          let s1 = s\<lparr>r := rd', window := window s @ bs\<rparr> in
          (case e of
             Some e' \<Rightarrow> setErr e' s1
           | None \<Rightarrow>
               if length bs > 0 then s1\<lparr>empties := 0\<rparr>
               else if loop + 1 > maxConsecutiveEmptyReads then setErr ErrNoProgress s1
               else fill s1 (loop + 1)))"
  by pat_completeness auto
termination
  by (relation "measure (\<lambda>(s, loop). Suc maxConsecutiveEmptyReads - loop)") auto

declare fill.simps [simp del]

text \<open>
  What a stream can still give: its bytes and its pieces.  It bounds the number of turns
  of the loop of \<open>Scan\<close>.
\<close>

definition rsize :: "reader \<Rightarrow> nat" where
  "rsize rd = length (concat (pending rd)) + length (pending rd)"

lemma Read_progress:
  "Read rd cap = (bs, None, rd') \<Longrightarrow> bs \<noteq> [] \<Longrightarrow> rsize rd' < rsize rd"
  by (auto simp: Read_def rsize_def split: list.splits if_splits)

lemma fill_progress:
  "err s = None \<Longrightarrow> err (fill s k) \<noteq> None \<or> rsize (r (fill s k)) < rsize (r s)"
proof (induction s k rule: fill.induct)
  case (1 s loop)
  obtain bs e rd' where rd: "Read (r s) (buflen s - (start s + length (window s))) = (bs, e, rd')"
    by (cases "Read (r s) (buflen s - (start s + length (window s)))") auto
  show ?case
  proof (cases e)
    case (Some e')
    with rd "1.prems" show ?thesis
      by (subst fill.simps) (simp add: setErr_def)
  next
    case None
    show ?thesis
    proof (cases "bs = []")
      case False
      with rd None Read_progress [of "r s" _ bs rd'] show ?thesis
        by (subst fill.simps, subst (2) fill.simps) simp
    next
      case True
      from rd None True have same: "rsize rd' \<le> rsize (r s)"
        by (auto simp: Read_def rsize_def split: list.splits if_splits)
      show ?thesis
      proof (cases "loop + 1 > maxConsecutiveEmptyReads")
        case True
        with rd None \<open>bs = []\<close> "1.prems" show ?thesis
          by (subst fill.simps) (simp add: setErr_def)
      next
        case False
        let ?s1 = "s\<lparr>r := rd', window := window s @ bs\<rparr>"
        have "err (fill ?s1 (loop + 1)) \<noteq> None \<or> rsize (r (fill ?s1 (loop + 1))) < rsize (r ?s1)"
          using "1.IH" [OF rd [symmetric] refl refl None] True False "1.prems" by simp
        moreover have "fill s loop = fill ?s1 (loop + 1)"
          using rd None True False by (subst fill.simps) simp
        ultimately show ?thesis using same by auto
      qed
    qed
  qed
qed

lemma tryToken_Continue:
  "tryToken split st s = Inr (Continue st' s') \<Longrightarrow>
     r s' = r s \<and> err s' = err s \<and> isDone s' = isDone s \<and>
     length (window s') \<le> length (window s)"
  by (auto simp: tryToken_def Let_def split: sum.splits prod.splits option.splits if_splits)

lemma shift_same:
  "r (shift s) = r s \<and> err (shift s) = err s \<and> window (shift s) = window s \<and>
   isDone (shift s) = isDone s"
  by (simp add: shift_def)

lemma grow_same:
  "grow s = Inr s' \<Longrightarrow>
     r s' = r s \<and> err s' = err s \<and> window s' = window s \<and> isDone s' = isDone s"
  by (auto simp: grow_def Let_def split: if_splits)

text \<open>
  The loop of \<open>Scan\<close>: try to get a token from the window; without one, stop at an error
  or at the end of the input, else make room, read, and try again.
\<close>

function scanLoop :: "'st SplitFunc \<Rightarrow> 'st \<Rightarrow> Scanner \<Rightarrow> panic + (bool \<times> 'st \<times> Scanner)" where
  "scanLoop split st s =
     (case (if length (window s) > 0 \<or> err s \<noteq> None then tryToken split st s
            else Inr (Continue st s)) of
        Inl p \<Rightarrow> Inl p
      | Inr (Return b st' s') \<Rightarrow> Inr (b, st', s')
      | Inr (Continue st' s') \<Rightarrow>
          if err s' \<noteq> None then Inr (False, st', s'\<lparr>start := 0, window := []\<rparr>)
          else
            (case grow (shift s') of
               Inl s'' \<Rightarrow> Inr (False, st', s'')
             | Inr s'' \<Rightarrow> scanLoop split st' (fill s'' 0)))"
  by pat_completeness auto
termination
proof (relation "measure (\<lambda>(split, st, s). if err s = None then Suc (rsize (r s)) else 0)")
  show "wf (measure (\<lambda>(split :: 'st SplitFunc, st :: 'st, s).
              if err s = None then Suc (rsize (r s)) else 0))"
    by simp
next
  fix split :: "'st SplitFunc" and st st' :: 'st and s s' s'' :: Scanner and x
  assume res: "(if 0 < length (window s) \<or> err s \<noteq> None then tryToken split st s
                else Inr (Continue st s)) = Inr x"
    and x: "x = Continue st' s'"
    and noerr: "\<not> err s' \<noteq> None"
    and g: "grow (shift s') = Inr s''"
  from res x have same: "r s' = r s \<and> err s' = err s"
    by (auto dest: tryToken_Continue split: if_splits)
  from g have same2: "r s'' = r s' \<and> err s'' = err s'"
    using grow_same [OF g] shift_same [of s'] by simp
  from noerr same same2 have e: "err s'' = None" "err s = None"
    by simp_all
  from fill_progress [OF e(1), of 0] same same2 e(2)
  show "((split, st', fill s'' 0), (split, st, s))
          \<in> measure (\<lambda>(split, st, s). if err s = None then Suc (rsize (r s)) else 0)"
    by auto
qed

declare scanLoop.simps [simp del]

definition Scan :: "'st SplitFunc \<Rightarrow> 'st \<Rightarrow> Scanner \<Rightarrow> panic + (bool \<times> 'st \<times> Scanner)" where
  "Scan split st s = (if isDone s then Inr (False, st, s) else scanLoop split st s)"

section \<open>Package \<open>clin\<close>\<close>

text \<open>
  The configuration.  \<open>Stream\<close> holds the state of the stream the field refers to: a
  method that reads the stream returns the \<open>Input\<close> with the stream as it has left it.
\<close>

record Input =
  Stream :: reader
  Literal :: bool
  ArgsDelim :: bytes
  ReadDelim :: bytes
  skipToken :: bool

text \<open>
  The default configuration.  Its stream is \<open>os.Stdin\<close>, which the environment supplies.
\<close>

definition input :: "reader \<Rightarrow> Input" where
  "input stdin =
     \<lparr>Stream = stdin, Literal = False, ArgsDelim = [LF], ReadDelim = '' '',
      skipToken = False\<rparr>"

definition Default :: "reader \<Rightarrow> Input" where
  "Default stdin = input stdin"

text \<open>
  The loop of \<open>scanArgs\<close>: the first index \<open>i\<close>, from \<open>i\<close> on, at which the delimiter
  stands in \<open>data\<close>.  Go's condition \<open>i <= len(data)-n\<close> is on signed integers; on
  naturals it is \<open>i + n \<le> length data\<close>.
\<close>

function findDelim :: "bytes \<Rightarrow> bytes \<Rightarrow> nat \<Rightarrow> nat option" where
  "findDelim delim data i =
     (if i + length delim \<le> length data then
        if delim = take (length delim) (drop i data) then Some i
        else findDelim delim data (i + 1)
      else None)"
  by pat_completeness auto
termination
  by (relation "measure (\<lambda>(delim, data, i). Suc (length data) - i)") auto

declare findDelim.simps [simp del]

definition scanArgs :: "Input SplitFunc" where
  "scanArgs inp data atEOF =
     (let n = length (ArgsDelim inp) in
      if n = 0 then
        (case ScanRunes data atEOF of Inl p \<Rightarrow> Inl p | Inr res \<Rightarrow> Inr (res, inp))
      else
        (case findDelim (ArgsDelim inp) data 0 of
           Some i \<Rightarrow>
             let j = (if i > 0 \<and> data ! (i - 1) = CR \<and> n = 1 \<and> ArgsDelim inp ! 0 = LF
                      then i - 1 else i)
             in Inr ((i + n, Some (take j data), None), inp)
         | None \<Rightarrow>
             if \<not> atEOF then Inr ((0, None, None), inp)
             else Inr ((0, Some data, Some ErrFinalToken),
                       inp\<lparr>skipToken := (length data = 0)\<rparr>)))"

lemma findDelim_bound:
  "findDelim delim data i = Some k \<Longrightarrow> i \<le> k \<and> k + length delim \<le> length data"
proof (induction delim data i rule: findDelim.induct)
  case (1 delim data i)
  then show ?case
    by (subst (asm) (2) findDelim.simps) (auto split: if_splits)
qed

lemma leadByte_size:
  "leadByte b = Some (sz, lo, hi) \<Longrightarrow> sz = 2 \<or> sz = 3 \<or> sz = 4"
  by (auto simp: leadByte_def split: if_splits)

lemma nonempty_length: "p \<noteq> [] \<Longrightarrow> Suc 0 \<le> length p"
  by (cases p) auto

lemma DecodeRune_width_le: "DecodeRune_width p \<le> length p"
proof (cases "leadByte (of_char (p ! 0))")
  case None
  then show ?thesis
    by (simp add: DecodeRune_width_def Let_def nonempty_length)
next
  case (Some x)
  obtain sz lo hi where x: "x = (sz, lo, hi)" by (cases x)
  with Some leadByte_size have "sz = 2 \<or> sz = 3 \<or> sz = 4" by blast
  with Some x show ?thesis
    by (auto simp: DecodeRune_width_def Let_def nonempty_length)
qed

lemma ScanRunes_advance:
  assumes "ScanRunes data atEOF = Inr (adv, Some t, None)"
  shows "0 < adv \<and> adv \<le> length data"
proof -
  have ne: "data \<noteq> []"
    using assms by (auto simp: ScanRunes_def split: if_splits)
  then have l: "Suc 0 \<le> length data" by (rule nonempty_length)
  show ?thesis
  proof (cases "of_char (data ! 0) < (0x80 :: nat)")
    case True
    with assms ne l show ?thesis by (simp add: ScanRunes_def)
  next
    case False
    show ?thesis
    proof (cases "DecodeRune_width data > 1")
      case True
      with assms ne False DecodeRune_width_le [of data] show ?thesis
        by (simp add: ScanRunes_def Let_def)
    next
      case w: False
      with assms ne False l show ?thesis
        by (simp add: ScanRunes_def Let_def split: if_splits)
    qed
  qed
qed

lemma scanArgs_advance:
  assumes "scanArgs inp data atEOF = Inr ((adv, Some t, None), inp')"
  shows "0 < adv \<and> adv \<le> length data"
proof (cases "length (ArgsDelim inp) = 0")
  case True
  with assms have "ScanRunes data atEOF = Inr (adv, Some t, None)"
    by (simp add: scanArgs_def split: sum.splits)
  then show ?thesis by (rule ScanRunes_advance)
next
  case False
  show ?thesis
  proof (cases "findDelim (ArgsDelim inp) data 0")
    case None
    with assms False show ?thesis
      by (simp add: scanArgs_def split: if_splits)
  next
    case (Some i)
    with assms False have "adv = i + length (ArgsDelim inp)"
      by (auto simp: scanArgs_def Let_def)
    with findDelim_bound [OF Some] False show ?thesis by simp
  qed
qed

lemma fill_total:
  "length (window (fill s k)) + length (contents (r (fill s k)))
     = length (window s) + length (contents (r s)) \<and> isDone (fill s k) = isDone s"
proof (induction s k rule: fill.induct)
  case (1 s loop)
  obtain bs e rd' where rd: "Read (r s) (buflen s - (start s + length (window s))) = (bs, e, rd')"
    by (cases "Read (r s) (buflen s - (start s + length (window s)))") auto
  then have len: "length bs + length (contents rd') = length (contents (r s))"
    by (auto simp: Read_def contents_def split: list.splits if_splits)
  show ?case
  proof (cases "e = None \<and> bs = [] \<and> \<not> loop + 1 > maxConsecutiveEmptyReads")
    case True
    let ?s1 = "s\<lparr>r := rd', window := window s @ bs\<rparr>"
    have "fill s loop = fill ?s1 (loop + 1)"
      using rd True by (subst fill.simps) simp
    moreover have "length (window (fill ?s1 (loop + 1))) + length (contents (r (fill ?s1 (loop + 1))))
        = length (window ?s1) + length (contents (r ?s1))
        \<and> isDone (fill ?s1 (loop + 1)) = isDone ?s1"
      using "1.IH" [OF rd [symmetric] refl refl] True by simp
    ultimately show ?thesis using len by simp
  next
    case False
    with rd len show ?thesis
      by (subst fill.simps, subst (2) fill.simps, subst (3) fill.simps)
         (auto simp: setErr_def Let_def split: option.splits)
  qed
qed

text \<open>What is left to scan: nothing once the scanner is done.\<close>

definition remaining :: "Scanner \<Rightarrow> nat" where
  "remaining s = (if isDone s then 0 else Suc (length (window s) + length (contents (r s))))"

lemma tryToken_scanArgs_True:
  assumes "tryToken scanArgs inp s = Inr (Return True inp' s')" and "\<not> isDone s"
  shows "remaining s' < remaining s"
proof -
  obtain adv tok e inp1 where sp:
    "scanArgs inp (window s) (err s \<noteq> None) = Inr ((adv, tok, e), inp1)"
    using assms(1) by (auto simp: tryToken_def split: sum.splits)
  show ?thesis
  proof (cases e)
    case (Some e')
    with assms sp show ?thesis
      by (auto simp: tryToken_def remaining_def setErr_def split: if_splits)
  next
    case None
    with assms(1) sp obtain t where t: "tok = Some t"
      by (cases tok) (auto simp: tryToken_def Let_def split: if_splits)
    from scanArgs_advance [OF sp [unfolded None t]] have "0 < adv" "adv \<le> length (window s)"
      by simp_all
    with assms sp None t show ?thesis
      by (auto simp: tryToken_def Let_def remaining_def split: if_splits)
  qed
qed

lemma scanLoop_scanArgs_True:
  "scanLoop scanArgs inp s = Inr (True, inp', s') \<Longrightarrow> \<not> isDone s \<Longrightarrow>
     remaining s' < remaining s"
proof (induction "scanArgs" inp s rule: scanLoop.induct)
  case (1 st s)
  define first where "first = (if length (window s) > 0 \<or> err s \<noteq> None
                               then tryToken scanArgs st s else Inr (Continue st s))"
  have unf: "scanLoop scanArgs st s =
     (case first of
        Inl p \<Rightarrow> Inl p
      | Inr (Return b st' s') \<Rightarrow> Inr (b, st', s')
      | Inr (Continue st' s') \<Rightarrow>
          if err s' \<noteq> None then Inr (False, st', s'\<lparr>start := 0, window := []\<rparr>)
          else
            (case grow (shift s') of
               Inl s'' \<Rightarrow> Inr (False, st', s'')
             | Inr s'' \<Rightarrow> scanLoop scanArgs st' (fill s'' 0)))"
    unfolding first_def by (rule scanLoop.simps)
  from "1.prems"(1) unf obtain x where first: "first = Inr x"
    by (cases first) auto
  show ?case
  proof (cases x)
    case (Return b st1 s1)
    with first unf "1.prems"(1) have "first = Inr (Return True inp' s')"
      by simp
    then have "tryToken scanArgs st s = Inr (Return True inp' s')"
      by (simp add: first_def split: if_splits)
    then show ?thesis using "1.prems"(2) by (rule tryToken_scanArgs_True)
  next
    case (Continue st1 s1)
    with first have s1: "r s1 = r s" "isDone s1 = isDone s" "length (window s1) \<le> length (window s)"
      by (auto simp: first_def dest: tryToken_Continue split: if_splits)
    from "1.prems"(1) first Continue unf have noerr: "\<not> err s1 \<noteq> None"
      by (auto split: if_splits)
    with "1.prems"(1) first Continue unf obtain s2 where g: "grow (shift s1) = Inr s2"
      by (cases "grow (shift s1)") auto
    with "1.prems"(1) first Continue noerr unf
    have rec: "scanLoop scanArgs st1 (fill s2 0) = Inr (True, inp', s')"
      by simp
    from g have s2: "r s2 = r s1" "window s2 = window s1" "isDone s2 = isDone s1"
      using grow_same [OF g] shift_same [of s1] by simp_all
    have nd: "\<not> isDone (fill s2 0)"
      using fill_total [of s2 0] s2 s1 "1.prems"(2) by simp
    have "remaining s' < remaining (fill s2 0)"
      using "1.hyps" [OF first [unfolded first_def] Continue noerr g rec nd] .
    also have "remaining (fill s2 0) \<le> remaining s"
      using fill_total [of s2 0] s2 s1 by (simp add: remaining_def)
    finally show ?thesis .
  qed
qed

lemma Scan_scanArgs_True:
  "Scan scanArgs inp s = Inr (True, inp', s') \<Longrightarrow> remaining s' < remaining s"
  by (auto simp: Scan_def dest: scanLoop_scanArgs_True split: if_splits)

text \<open>
  The loop of \<open>Args\<close>: append the text of every token that \<open>Scan\<close> finds, unless
  \<open>skipToken\<close> is set.
\<close>

function scanTokens :: "Input \<Rightarrow> Scanner \<Rightarrow> bytes list \<Rightarrow> panic + (bytes list \<times> Input \<times> Scanner)" where
  "scanTokens inp s a =
     (case Scan scanArgs inp s of
        Inl p \<Rightarrow> Inl p
      | Inr (ok, inp', s') \<Rightarrow>
          if ok then scanTokens inp' s' (if \<not> skipToken inp' then a @ [Text s'] else a)
          else Inr (a, inp', s'))"
  by pat_completeness auto
termination
  by (relation "measure (\<lambda>(inp, s, a). remaining s)") (auto dest: Scan_scanArgs_True)

declare scanTokens.simps [simp del]

text \<open>
  \<open>Args\<close>, \<open>Fields\<close> and \<open>Reader\<close> are methods on a pointer to the \<open>Input\<close>: each
  returns, with its result, the \<open>Input\<close> as the call leaves it.  In \<open>Args\<close> the scanner
  holds the stream while it reads, and nothing looks at the field \<open>Stream\<close> meanwhile; at
  the end the field shows the stream as the scanner has left it.  The error of the scanner
  is not looked at: \<open>Args\<close> returns the tokens it has got.
\<close>

definition Args :: "Input \<Rightarrow> bytes list \<Rightarrow> panic + (bytes list \<times> Input)" where
  "Args inp args =
     (if length args = 0 then
        let s = NewScanner (Stream inp);
            a = [];
            inp = inp\<lparr>skipToken := False\<rparr>
        in (case scanTokens inp s a of
              Inl p \<Rightarrow> Inl p
            | Inr (a, inp, s) \<Rightarrow> Inr (a, inp\<lparr>Stream := r s\<rparr>))
      else Inr (args, inp))"

fun Fields_loop :: "bytes list \<Rightarrow> bytes list \<Rightarrow> bytes list" where
  "Fields_loop [] a = a"
| "Fields_loop (s # rest) a = Fields_loop rest (if s \<noteq> [] then a @ [s] else a)"

definition Fields :: "Input \<Rightarrow> bytes list \<Rightarrow> bytes list \<times> Input" where
  "Fields inp args = (Fields_loop args [], inp)"

definition Reader :: "filesystem \<Rightarrow> Input \<Rightarrow> bytes list \<Rightarrow> reader \<times> Input" where
  "Reader fs inp args =
     (if length args = 0 then (Stream inp, inp)
      else if length args = 1 then
        if \<not> Literal inp then
          (case os_Open fs (args ! 0) of
             Inr f \<Rightarrow> (f, inp)
           | Inl e \<Rightarrow> (strings_NewReader (args ! 0), inp))
        else (strings_NewReader (args ! 0), inp)
      else (strings_NewReader (strings_Join args (ReadDelim inp)), inp))"

section \<open>\<open>Args\<close> with arguments, \<open>Fields\<close> and \<open>Reader\<close>\<close>

text \<open>
  The joined text in the words of the specification: the elements in order, with the
  delimiter between consecutive elements, and neither before the first nor after the last.
\<close>

fun joined_spec :: "bytes list \<Rightarrow> bytes \<Rightarrow> bytes" where
  "joined_spec [] d = []"
| "joined_spec [x] d = x"
| "joined_spec (x # y # ys) d = x @ d @ joined_spec (y # ys) d"

lemma strings_Join_joined_spec: "strings_Join args d = joined_spec args d"
proof (induction args d rule: joined_spec.induct)
  case (3 x y ys d)
  then show ?case by (cases ys) simp_all
qed simp_all

lemma contents_strings_NewReader: "contents (strings_NewReader s) = s"
  by (simp add: contents_def strings_NewReader_def)

lemma Fields_loop_filter: "Fields_loop args a = a @ filter (\<lambda>s. s \<noteq> []) args"
  by (induction args arbitrary: a) simp_all

text \<open>
  C4: for every non-empty \<open>args\<close>, also one whose elements are empty strings, \<open>Args\<close>
  returns \<open>args\<close> unchanged and leaves the configuration, with its fallback stream and its
  \<open>skipToken\<close> flag, exactly as it was: nothing is read and nothing is written.
\<close>

theorem Args_nonempty_identity:
  "args \<noteq> [] \<Longrightarrow> Args inp args = Inr (args, inp)"
  by (simp add: Args_def)

theorem Args_nonempty_identity_witness:
  "[''ordinary '', '' flags'', []] \<noteq> [] \<and>
   Args (Default \<lparr>pending = [''unread''], closing = EOF\<rparr>) [''ordinary '', '' flags'', []]
     = Inr ([''ordinary '', '' flags'', []], Default \<lparr>pending = [''unread''], closing = EOF\<rparr>)"
  using Args_nonempty_identity
    [of "[''ordinary '', '' flags'', []]" "Default \<lparr>pending = [''unread''], closing = EOF\<rparr>"]
  by simp

text \<open>
  C10: \<open>Fields\<close> returns exactly the elements of \<open>args\<close> that are not the empty string,
  in their order, and returns the configuration as it was: the fallback stream is not
  read, whether \<open>args\<close> or the result is empty or not.
\<close>

theorem Fields_filter_nonempty:
  "Fields inp args = (filter (\<lambda>s. s \<noteq> []) args, inp)"
  by (simp add: Fields_def Fields_loop_filter)

text \<open>
  C5: without arguments \<open>Reader\<close> returns the fallback stream itself; with two or more
  arguments it returns a stream, ending with \<open>EOF\<close>, whose content is the arguments
  joined in order with \<open>ReadDelim\<close> between consecutive elements only.
\<close>

theorem Reader_none_or_many:
  "Reader fs inp [] = (Stream inp, inp) \<and>
   (2 \<le> length args \<longrightarrow>
      contents (fst (Reader fs inp args)) = joined_spec args (ReadDelim inp) \<and>
      closing (fst (Reader fs inp args)) = EOF \<and>
      snd (Reader fs inp args) = inp)"
  by (simp add: Reader_def contents_strings_NewReader strings_Join_joined_spec)
     (simp add: strings_NewReader_def)

theorem Reader_none_or_many_witness:
  "2 \<le> length [''x'', ''y''] \<and>
   contents (fst (Reader (\<lambda>p. None) (Default \<lparr>pending = [], closing = EOF\<rparr>) [''x'', ''y'']))
     = ''x'' @ ReadDelim (Default \<lparr>pending = [], closing = EOF\<rparr>) @ ''y'' \<and>
   contents (fst (Reader (\<lambda>p. None) (Default \<lparr>pending = [], closing = EOF\<rparr>) [''x'', ''y'']))
     = ''x y''"
  using Reader_none_or_many
    [of "\<lambda>p. None" "Default \<lparr>pending = [], closing = EOF\<rparr>" "[''x'', ''y'']"]
  by (simp add: Default_def input_def)

text \<open>
  C6: with a single argument and \<open>Literal\<close> false, \<open>Reader\<close> returns the stream of the
  file when the argument can be opened as a path; when \<open>Literal\<close> is true or the file
  cannot be opened, it returns a stream over the text of the argument itself.  In every
  case the call returns a stream and leaves the configuration as it was: the failure to
  open a file is not reported.
\<close>

theorem Reader_single:
  "(\<not> Literal inp \<and> fs a = Some f \<longrightarrow> Reader fs inp [a] = (f, inp)) \<and>
   (Literal inp \<or> fs a = None \<longrightarrow>
      Reader fs inp [a] = (strings_NewReader a, inp) \<and>
      contents (fst (Reader fs inp [a])) = a)"
  by (auto simp: Reader_def os_Open_def contents_strings_NewReader)

theorem Reader_single_witness:
  "Reader (\<lambda>p. if p = ''notes.txt'' then Some \<lparr>pending = [''hello''], closing = EOF\<rparr> else None)
      (Default \<lparr>pending = [], closing = EOF\<rparr>) [''notes.txt'']
     = (\<lparr>pending = [''hello''], closing = EOF\<rparr>, Default \<lparr>pending = [], closing = EOF\<rparr>) \<and>
   contents (fst (Reader (\<lambda>p. if p = ''notes.txt'' then Some \<lparr>pending = [''hello''], closing = EOF\<rparr> else None)
      (Default \<lparr>pending = [], closing = EOF\<rparr>) [''missing.txt''])) = ''missing.txt'' \<and>
   contents (fst (Reader (\<lambda>p. if p = ''notes.txt'' then Some \<lparr>pending = [''hello''], closing = EOF\<rparr> else None)
      ((Default \<lparr>pending = [], closing = EOF\<rparr>)\<lparr>Literal := True\<rparr>) [''notes.txt''])) = ''notes.txt''"
  using
    Reader_single [of "Default \<lparr>pending = [], closing = EOF\<rparr>"
      "\<lambda>p. if p = ''notes.txt'' then Some \<lparr>pending = [''hello''], closing = EOF\<rparr> else None"
      "''notes.txt''" "\<lparr>pending = [''hello''], closing = EOF\<rparr>"]
    Reader_single [of "Default \<lparr>pending = [], closing = EOF\<rparr>"
      "\<lambda>p. if p = ''notes.txt'' then Some \<lparr>pending = [''hello''], closing = EOF\<rparr> else None"
      "''missing.txt''"]
    Reader_single [of "(Default \<lparr>pending = [], closing = EOF\<rparr>)\<lparr>Literal := True\<rparr>"
      "\<lambda>p. if p = ''notes.txt'' then Some \<lparr>pending = [''hello''], closing = EOF\<rparr> else None"
      "''notes.txt''"]
  by (simp add: Default_def input_def contents_strings_NewReader)

section \<open>What \<open>Scan\<close> does to the content of a stream\<close>

text \<open>
  What a scanner has still to split: its window and then the content of its stream.
\<close>

definition rest :: "Scanner \<Rightarrow> bytes" where
  "rest s = window s @ contents (r s)"

text \<open>
  A scanner gives a stream up (\<open>io.ErrNoProgress\<close>) when more than
  \<open>maxConsecutiveEmptyReads\<close> calls of \<open>Read\<close> in a row deliver nothing and report no
  error.  \<open>empty_runs_ok k cs\<close>: after \<open>k\<close> empty pieces, the pieces \<open>cs\<close> never bring
  the number of empty pieces in a row above that bound.  A stream is \<open>steady\<close> when its
  pieces never do.
\<close>

fun empty_runs_ok :: "nat \<Rightarrow> bytes list \<Rightarrow> bool" where
  "empty_runs_ok k [] = True"
| "empty_runs_ok k (c # cs) =
     (if c = [] then k < maxConsecutiveEmptyReads \<and> empty_runs_ok (Suc k) cs
      else empty_runs_ok 0 cs)"

definition steady :: "reader \<Rightarrow> bool" where
  "steady rd = empty_runs_ok 0 (pending rd)"

lemma no_empty_piece_steady: "[] \<notin> set cs \<Longrightarrow> empty_runs_ok k cs"
  by (induction cs arbitrary: k) auto

lemma no_empty_piece_steady_reader: "[] \<notin> set (pending rd) \<Longrightarrow> steady rd"
  by (simp add: steady_def no_empty_piece_steady)

text \<open>
  A scanner between two calls of \<open>Scan\<close>, on a steady stream: the window lies in the
  buffer, the buffer is no longer than the largest buffer, and after an error of the stream
  there is nothing more to read.
\<close>

definition ready :: "Scanner \<Rightarrow> bool" where
  "ready s =
     (start s + length (window s) \<le> buflen s \<and> buflen s \<le> maxTokenSize \<and> \<not> isDone s \<and>
      steady (r s) \<and> (err s = None \<or> pending (r s) = []))"

lemma ready_NewScanner: "steady rd \<Longrightarrow> ready (NewScanner rd)"
  by (simp add: ready_def NewScanner_def)

lemma rest_NewScanner: "rest (NewScanner rd) = contents rd"
  by (simp add: rest_def NewScanner_def)

lemma grow_shift_room:
  assumes "start s + length (window s) \<le> buflen s" and "length (window s) < maxTokenSize"
  shows "\<exists>s2. grow (shift s) = Inr s2 \<and> start s2 + length (window s2) < buflen s2 \<and>
           window s2 = window s \<and> r s2 = r s \<and> err s2 = err s \<and> isDone s2 = isDone s \<and>
           (buflen s \<le> maxTokenSize \<longrightarrow> buflen s2 \<le> maxTokenSize)"
proof -
  let ?t = "shift s"
  have t: "window ?t = window s" "r ?t = r s" "err ?t = err s" "isDone ?t = isDone s"
    "buflen ?t = buflen s"
    by (simp_all add: shift_def)
  have full: "start ?t + length (window ?t) = buflen ?t \<Longrightarrow> start ?t = 0"
    using assms(1) by (auto simp: shift_def split: if_splits)
  have le: "start ?t + length (window ?t) \<le> buflen ?t"
    using assms(1) by (auto simp: shift_def split: if_splits)
  show ?thesis
  proof (cases "start ?t + length (window ?t) = buflen ?t")
    case False
    with le t show ?thesis by (simp add: grow_def)
  next
    case True
    with full t have b: "buflen s = length (window s)" "start ?t = 0" by simp_all
    with assms(2) have small: "\<not> (buflen ?t \<ge> maxTokenSize \<or> buflen ?t > maxInt div 2)"
      using t by (simp add: maxTokenSize_def maxInt_def)
    have "grow ?t = Inr (?t\<lparr>buflen := min (if buflen ?t * 2 = 0 then startBufSize
                                             else buflen ?t * 2) maxTokenSize, start := 0\<rparr>)"
      using True small by (simp add: grow_def Let_def)
    moreover have "length (window s) <
        min (if buflen ?t * 2 = 0 then startBufSize else buflen ?t * 2) maxTokenSize"
      using assms(2) b t by (auto simp: startBufSize_def)
    ultimately show ?thesis using t by simp
  qed
qed

lemma fill_steady:
  "err s = None \<Longrightarrow> start s + length (window s) < buflen s \<Longrightarrow>
   empty_runs_ok loop (pending (r s)) \<Longrightarrow>
     rest (fill s loop) = rest s \<and> closing (r (fill s loop)) = closing (r s) \<and>
     start (fill s loop) + length (window (fill s loop)) \<le> buflen (fill s loop) \<and>
     buflen (fill s loop) = buflen s \<and>
     isDone (fill s loop) = isDone s \<and> steady (r (fill s loop)) \<and>
     (err (fill s loop) = None \<or> pending (r (fill s loop)) = [])"
proof (induction s loop rule: fill.induct)
  case (1 s loop)
  let ?cap = "buflen s - (start s + length (window s))"
  from "1.prems"(2) have cap: "0 < ?cap" by simp
  show ?case
  proof (cases "pending (r s)")
    case Nil
    then have "fill s loop = setErr (closing (r s)) (s\<lparr>r := r s, window := window s @ []\<rparr>)"
      by (subst fill.simps) (simp add: Read_def)
    with Nil "1.prems" show ?thesis
      by (simp add: setErr_def rest_def contents_def steady_def)
  next
    case (Cons c cs)
    show ?thesis
    proof (cases "c = []")
      case True
      with Cons "1.prems"(3) have k: "loop < maxConsecutiveEmptyReads" "empty_runs_ok (Suc loop) cs"
        by simp_all
      let ?s1 = "s\<lparr>r := (r s)\<lparr>pending := cs\<rparr>, window := window s @ []\<rparr>"
      have rd: "Read (r s) ?cap = ([], None, (r s)\<lparr>pending := cs\<rparr>)"
        using Cons True by (simp add: Read_def)
      have unf: "fill s loop = fill ?s1 (loop + 1)"
        using rd k(1) by (subst fill.simps) simp
      have "rest (fill ?s1 (loop + 1)) = rest ?s1 \<and>
          closing (r (fill ?s1 (loop + 1))) = closing (r ?s1) \<and>
          start (fill ?s1 (loop + 1)) + length (window (fill ?s1 (loop + 1)))
            \<le> buflen (fill ?s1 (loop + 1)) \<and>
          buflen (fill ?s1 (loop + 1)) = buflen ?s1 \<and>
          isDone (fill ?s1 (loop + 1)) = isDone ?s1 \<and> steady (r (fill ?s1 (loop + 1))) \<and>
          (err (fill ?s1 (loop + 1)) = None \<or> pending (r (fill ?s1 (loop + 1))) = [])"
      proof (rule "1.IH" [OF rd [symmetric] refl refl])
        show "\<not> 0 < length ([] :: bytes)" by simp
        show "\<not> maxConsecutiveEmptyReads < loop + 1" using k(1) by simp
        show "err ?s1 = None" using "1.prems"(1) by simp
        show "start ?s1 + length (window ?s1) < buflen ?s1" using "1.prems"(2) by simp
        show "empty_runs_ok (loop + 1) (pending (r ?s1))" using k(2) by simp
      qed simp
      with unf Cons True show ?thesis
        by (simp add: rest_def contents_def)
    next
      case False
      show ?thesis
      proof (cases "length c \<le> ?cap")
        case True
        with Cons False have "fill s loop = s\<lparr>r := (r s)\<lparr>pending := cs\<rparr>, window := window s @ c, empties := 0\<rparr>"
          by (subst fill.simps) (simp add: Read_def)
        with Cons "1.prems" True False show ?thesis
          by (auto simp: rest_def contents_def steady_def)
      next
        case long: False
        with Cons False cap
        have "fill s loop = s\<lparr>r := (r s)\<lparr>pending := drop ?cap c # cs\<rparr>,
                            window := window s @ take ?cap c, empties := 0\<rparr>"
          by (subst fill.simps) (simp add: Read_def)
        with Cons "1.prems" long False show ?thesis
          by (auto simp: rest_def contents_def steady_def)
      qed
    qed
  qed
qed

text \<open>A property of the stream that every \<open>Read\<close> keeps, \<open>fill\<close> keeps.\<close>

lemma fill_reader_inv:
  assumes "\<And>rd cap bs e rd'. P rd \<Longrightarrow> Read rd cap = (bs, e, rd') \<Longrightarrow> P rd'"
  shows "P (r s) \<Longrightarrow> P (r (fill s loop))"
proof (induction s loop rule: fill.induct)
  case (1 s loop)
  obtain bs e rd' where rd: "Read (r s) (buflen s - (start s + length (window s))) = (bs, e, rd')"
    by (cases "Read (r s) (buflen s - (start s + length (window s)))") auto
  from assms [OF "1.prems" rd] have p: "P rd'" .
  show ?case
  proof (cases "e = None \<and> bs = [] \<and> \<not> loop + 1 > maxConsecutiveEmptyReads")
    case True
    let ?s1 = "s\<lparr>r := rd', window := window s @ bs\<rparr>"
    have "fill s loop = fill ?s1 (loop + 1)"
      using rd True by (subst fill.simps) simp
    moreover have "P (r (fill ?s1 (loop + 1)))"
      using "1.IH" [OF rd [symmetric] refl refl] True p by simp
    ultimately show ?thesis by simp
  next
    case False
    show ?thesis
    proof (cases e)
      case (Some e')
      have "r (fill s loop) = rd'"
        using rd Some by (subst fill.simps) (simp add: setErr_def Let_def)
      with p show ?thesis by simp
    next
      case None
      with False have "bs \<noteq> [] \<or> loop + 1 > maxConsecutiveEmptyReads" by simp
      then have "r (fill s loop) = rd'"
        using rd None by (subst fill.simps) (auto simp: setErr_def Let_def)
      with p show ?thesis by simp
    qed
  qed
qed

lemma scanLoop_Continue:
  assumes "(if 0 < length (window s) \<or> err s \<noteq> None then tryToken split st s
            else Inr (Continue st s)) = Inr (Continue st1 s1)"
    and "err s1 = None" and "grow (shift s1) = Inr s2"
  shows "scanLoop split st s = scanLoop split st1 (fill s2 0)"
  by (subst scanLoop.simps, subst assms(1)) (simp add: assms(2,3))

lemma scanLoop_Return:
  assumes "0 < length (window s) \<or> err s \<noteq> None"
    and "tryToken split st s = Inr (Return b st1 s1)"
  shows "scanLoop split st s = Inr (b, st1, s1)"
  by (subst scanLoop.simps) (simp only: assms if_True sum.case step.case)

text \<open>
  The loop of \<open>Scan\<close> reads on for as long as the split function, given a beginning of
  what is left, asks for more; it arrives, with nothing lost, at a window on which the
  split function decides (\<open>Q\<close>).  A beginning on which it asks for more must be shorter
  than the largest buffer.
\<close>

lemma scanLoop_forward_inv:
  assumes "ready s"
    and "\<And>k eof. k \<le> length (rest s) \<Longrightarrow> (eof \<Longrightarrow> k = length (rest s)) \<Longrightarrow> (k = 0 \<Longrightarrow> eof) \<Longrightarrow>
           Q k eof \<or>
           (\<not> eof \<and> k < maxTokenSize \<and> sp st (take k (rest s)) False = Inr ((0, None, None), st))"
    and "P (r s)"
    and inv: "\<And>rd cap bs e rd'. P rd \<Longrightarrow> Read rd cap = (bs, e, rd') \<Longrightarrow> P rd'"
  shows "\<exists>sk. ready sk \<and> rest sk = rest s \<and> closing (r sk) = closing (r s) \<and>
           (window sk \<noteq> [] \<or> err sk \<noteq> None) \<and>
           Q (length (window sk)) (err sk \<noteq> None) \<and>
           scanLoop sp st sk = scanLoop sp st s \<and> P (r sk)"
  using assms(1,2,3)
proof (induction sp st s rule: scanLoop.induct)
  case (1 split st s)
  let ?k = "length (window s)"
  let ?eof = "err s \<noteq> None"
  let ?called = "0 < length (window s) \<or> err s \<noteq> None"
  from "1.prems"(1) have rd: "start s + length (window s) \<le> buflen s" "\<not> isDone s"
    "steady (r s)" "err s = None \<or> pending (r s) = []" "buflen s \<le> maxTokenSize"
    by (simp_all add: ready_def)
  have k1: "?k \<le> length (rest s)" by (simp add: rest_def)
  have k2: "?eof \<Longrightarrow> ?k = length (rest s)"
    using rd(4) by (auto simp: rest_def contents_def)
  have w: "take ?k (rest s) = window s" by (simp add: rest_def)
  show ?case
  proof (cases "?called \<and> Q ?k ?eof")
    case True
    with "1.prems"(1,3) show ?thesis by (intro exI [of _ s]) auto
  next
    case False
    define s1 where "s1 = (if ?called then s\<lparr>start := start s + 0, window := drop 0 (window s),
                                              token := None\<rparr> else s)"
    have more: "err s = None \<and> ?k < maxTokenSize \<and>
        (if ?called then tryToken split st s else Inr (Continue st s)) = Inr (Continue st s1)"
    proof (cases ?called)
      case c: True
      with False have "\<not> Q ?k ?eof" by blast
      with "1.prems"(2) [of ?k ?eof] k1 k2 c
      have "\<not> ?eof \<and> ?k < maxTokenSize \<and> split st (take ?k (rest s)) False = Inr ((0, None, None), st)"
        by auto
      with w c show ?thesis
        by (simp add: tryToken_def s1_def)
    next
      case c: False
      then show ?thesis by (simp add: s1_def maxTokenSize_def)
    qed
    have s1: "window s1 = window s" "r s1 = r s" "err s1 = None" "start s1 = start s"
      "buflen s1 = buflen s" "isDone s1 = isDone s"
      using more by (simp_all add: s1_def)
    from grow_shift_room [of s1] rd(1,5) more s1 obtain s2 where
      s2: "grow (shift s1) = Inr s2" "start s2 + length (window s2) < buflen s2"
        "window s2 = window s" "r s2 = r s" "err s2 = None" "isDone s2 = isDone s"
        "buflen s2 \<le> maxTokenSize"
      by auto
    from fill_steady [of s2 0] s2 rd(3)
    have s3: "rest (fill s2 0) = rest s2" "closing (r (fill s2 0)) = closing (r s2)"
      "start (fill s2 0) + length (window (fill s2 0)) \<le> buflen (fill s2 0)"
      "isDone (fill s2 0) = isDone s" "steady (r (fill s2 0))"
      "err (fill s2 0) = None \<or> pending (r (fill s2 0)) = []"
      "buflen (fill s2 0) \<le> maxTokenSize"
      by (simp_all add: steady_def)
    have closing3: "closing (r (fill s2 0)) = closing (r s)"
      using s3(2) s2 by simp
    have rest3: "rest (fill s2 0) = rest s"
      using s3(1) s2 by (simp add: rest_def)
    have ready3: "ready (fill s2 0)"
      using s3 rd(2) by (simp add: ready_def)
    have unf: "scanLoop split st s = scanLoop split st (fill s2 0)"
      by (rule scanLoop_Continue [OF more [THEN conjunct2, THEN conjunct2] s1(3) s2(1)])
    have "\<exists>sk. ready sk \<and> rest sk = rest (fill s2 0) \<and>
           closing (r sk) = closing (r (fill s2 0)) \<and> (window sk \<noteq> [] \<or> err sk \<noteq> None) \<and>
           Q (length (window sk)) (err sk \<noteq> None) \<and>
           scanLoop split st sk = scanLoop split st (fill s2 0) \<and> P (r sk)"
    proof (rule "1.IH" [OF _ refl _ s2(1) ready3])
      show "(if ?called then tryToken split st s else Inr (Continue st s)) = Inr (Continue st s1)"
        by (rule more [THEN conjunct2, THEN conjunct2])
      show "\<not> err s1 \<noteq> None" using s1 by simp
      fix k eof
      assume "k \<le> length (rest (fill s2 0))" "eof \<Longrightarrow> k = length (rest (fill s2 0))" "k = 0 \<Longrightarrow> eof"
      then show "Q k eof \<or> (\<not> eof \<and> k < maxTokenSize \<and>
          split st (take k (rest (fill s2 0))) False = Inr ((0, None, None), st))"
        using "1.prems"(2) [of k eof] rest3 by simp
    next
      show "P (r (fill s2 0))"
      proof (rule fill_reader_inv [where P = P])
        show "P (r s2)" using "1.prems"(3) s2(4) by simp
      next
        fix rd cap bs e rd'
        assume "P rd" "Read rd cap = (bs, e, rd')"
        then show "P rd'" by (rule inv)
      qed
    qed
    with rest3 closing3 unf show ?thesis by simp
  qed
qed

lemma scanLoop_forward:
  assumes "ready s"
    and "\<And>k eof. k \<le> length (rest s) \<Longrightarrow> (eof \<Longrightarrow> k = length (rest s)) \<Longrightarrow> (k = 0 \<Longrightarrow> eof) \<Longrightarrow>
           Q k eof \<or>
           (\<not> eof \<and> k < maxTokenSize \<and> sp st (take k (rest s)) False = Inr ((0, None, None), st))"
  shows "\<exists>sk. ready sk \<and> rest sk = rest s \<and> closing (r sk) = closing (r s) \<and>
           (window sk \<noteq> [] \<or> err sk \<noteq> None) \<and>
           Q (length (window sk)) (err sk \<noteq> None) \<and>
           scanLoop sp st sk = scanLoop sp st s"
proof -
  from scanLoop_forward_inv [of s Q sp st "\<lambda>rd. True", OF assms TrueI TrueI]
  obtain sk where "ready sk \<and> rest sk = rest s \<and> closing (r sk) = closing (r s) \<and>
      (window sk \<noteq> [] \<or> err sk \<noteq> None) \<and> Q (length (window sk)) (err sk \<noteq> None) \<and>
      scanLoop sp st sk = scanLoop sp st s \<and> True" ..
  then show ?thesis by blast
qed

section \<open>Splitting at a delimiter\<close>

text \<open>The delimiter \<open>d\<close> stands in \<open>s\<close> at index \<open>k\<close>.\<close>

definition occurs :: "bytes \<Rightarrow> bytes \<Rightarrow> nat \<Rightarrow> bool" where
  "occurs d s k = (k + length d \<le> length s \<and> take (length d) (drop k s) = d)"

lemma findDelim_Some_iff:
  "findDelim d s j = Some i \<longleftrightarrow>
     j \<le> i \<and> occurs d s i \<and> (\<forall>k. j \<le> k \<and> k < i \<longrightarrow> \<not> occurs d s k)"
proof (induction d s j rule: findDelim.induct)
  case (1 d s j)
  show ?case
  proof (cases "j + length d \<le> length s")
    case False
    then have "findDelim d s j = None" by (subst findDelim.simps) simp
    moreover from False have "\<not> (j \<le> i \<and> occurs d s i)" by (auto simp: occurs_def)
    ultimately show ?thesis by auto
  next
    case True
    show ?thesis
    proof (cases "d = take (length d) (drop j s)")
      case here: True
      with True have "findDelim d s j = Some j" by (subst findDelim.simps) simp
      moreover from here True have "occurs d s j" by (simp add: occurs_def)
      ultimately show ?thesis by (auto simp: not_less)
    next
      case nothere: False
      with True have "findDelim d s j = findDelim d s (j + 1)" by (subst findDelim.simps) simp
      moreover from nothere have no: "\<not> occurs d s j" by (auto simp: occurs_def)
      moreover have "(j + 1 \<le> i \<and> occurs d s i \<and> (\<forall>k. j + 1 \<le> k \<and> k < i \<longrightarrow> \<not> occurs d s k))
          \<longleftrightarrow> (j \<le> i \<and> occurs d s i \<and> (\<forall>k. j \<le> k \<and> k < i \<longrightarrow> \<not> occurs d s k))"
        (is "?L \<longleftrightarrow> ?R")
      proof
        assume l: ?L
        have "\<not> occurs d s k" if "j \<le> k \<and> k < i" for k
        proof (cases "k = j")
          case True
          with no show ?thesis by simp
        next
          case False
          with that have "j + 1 \<le> k \<and> k < i" by simp
          with l show ?thesis by blast
        qed
        with l show ?R by simp
      next
        assume rr: ?R
        with no have "i \<noteq> j" by auto
        with rr have "j + 1 \<le> i" by simp
        moreover have "\<not> occurs d s k" if "j + 1 \<le> k \<and> k < i" for k
          using rr that by simp
        ultimately show ?L using rr by simp
      qed
      ultimately show ?thesis using "1.IH" [OF True nothere] by simp
    qed
  qed
qed

lemma findDelim_None_iff: "findDelim d s j = None \<longleftrightarrow> (\<forall>k\<ge>j. \<not> occurs d s k)"
proof (induction d s j rule: findDelim.induct)
  case (1 d s j)
  show ?case
  proof (cases "j + length d \<le> length s")
    case False
    then have "findDelim d s j = None" by (subst findDelim.simps) simp
    moreover from False have "\<forall>k\<ge>j. \<not> occurs d s k" by (auto simp: occurs_def)
    ultimately show ?thesis by simp
  next
    case True
    show ?thesis
    proof (cases "d = take (length d) (drop j s)")
      case here: True
      with True have "findDelim d s j = Some j" by (subst findDelim.simps) simp
      moreover from here True have "occurs d s j" by (simp add: occurs_def)
      ultimately show ?thesis by auto
    next
      case nothere: False
      with True have "findDelim d s j = findDelim d s (j + 1)" by (subst findDelim.simps) simp
      moreover from nothere have no: "\<not> occurs d s j" by (auto simp: occurs_def)
      moreover have "(\<forall>k\<ge>j + 1. \<not> occurs d s k) \<longleftrightarrow> (\<forall>k\<ge>j. \<not> occurs d s k)"
      proof
        assume l: "\<forall>k\<ge>j + 1. \<not> occurs d s k"
        show "\<forall>k\<ge>j. \<not> occurs d s k"
        proof (intro allI impI)
          fix k assume "j \<le> k"
          then have "k = j \<or> j + 1 \<le> k" by auto
          with no l show "\<not> occurs d s k" by blast
        qed
      next
        assume "\<forall>k\<ge>j. \<not> occurs d s k"
        then show "\<forall>k\<ge>j + 1. \<not> occurs d s k" by simp
      qed
      ultimately show ?thesis using "1.IH" [OF True nothere] by simp
    qed
  qed
qed

lemma take_eq_imp_le:
  assumes "take (length d) s = d"
  shows "length d \<le> length s"
proof -
  have "length (take (length d) s) = length d" using assms by simp
  then show ?thesis by (simp add: min_def split: if_splits)
qed

lemma occurs_take: "k + length d \<le> m \<Longrightarrow> occurs d (take m s) k = occurs d s k"
  by (auto simp: occurs_def drop_take min_def)

lemma occurs_take_bound: "occurs d (take m s) k \<Longrightarrow> k + length d \<le> m"
  by (simp add: occurs_def)

lemma findDelim_take_Some:
  assumes "findDelim d c 0 = Some i" and "i + length d \<le> k"
  shows "findDelim d (take k c) 0 = Some i"
proof -
  from assms(1) have i: "occurs d c i" and least: "\<And>k. k < i \<Longrightarrow> \<not> occurs d c k"
    by (simp_all add: findDelim_Some_iff)
  from i assms(2) have "occurs d (take k c) i" by (simp add: occurs_take)
  moreover have "\<not> occurs d (take k c) j" if "j < i" for j
  proof
    assume o: "occurs d (take k c) j"
    then have "j + length d \<le> k" by (rule occurs_take_bound)
    with o have "occurs d c j" by (simp add: occurs_take)
    with least [OF that] show False by simp
  qed
  ultimately show ?thesis by (simp add: findDelim_Some_iff)
qed

lemma findDelim_take_short:
  assumes "findDelim d c 0 = Some i" and "k < i + length d"
  shows "findDelim d (take k c) 0 = None"
  unfolding findDelim_None_iff
proof (intro allI impI notI)
  fix j assume j: "occurs d (take k c) j"
  then have b: "j + length d \<le> k" by (rule occurs_take_bound)
  with j have "occurs d c j" by (simp add: occurs_take)
  moreover from b assms(2) have "j < i" by simp
  ultimately show False using assms(1) by (simp add: findDelim_Some_iff)
qed

lemma findDelim_take_None:
  assumes "findDelim d c 0 = None"
  shows "findDelim d (take k c) 0 = None"
  unfolding findDelim_None_iff
proof (intro allI impI notI)
  fix j assume j: "occurs d (take k c) j"
  then have "j + length d \<le> k" by (rule occurs_take_bound)
  with j have "occurs d c j" by (simp add: occurs_take)
  with assms show False by (simp add: findDelim_None_iff)
qed

text \<open>
  The segments of a text between the occurrences of a delimiter, found from left to right:
  what \<open>strings.Split\<close> returns.  There is always a last segment, after the last
  delimiter; it is empty when the text ends with a delimiter, or is empty.
\<close>

function splitOn :: "bytes \<Rightarrow> bytes \<Rightarrow> bytes list" where
  "splitOn d s =
     (if d = [] \<or> s = [] then [s]
      else if take (length d) s = d then [] # splitOn d (drop (length d) s)
      else (case splitOn d (tl s) of
              [] \<Rightarrow> [[hd s]]
            | t # ts \<Rightarrow> (hd s # t) # ts))"
  by pat_completeness auto
termination
  by (relation "measure (\<lambda>(d, s). length s)") auto

declare splitOn.simps [simp del]

lemma splitOn_Some:
  "d \<noteq> [] \<Longrightarrow> findDelim d s 0 = Some i \<Longrightarrow>
     splitOn d s = take i s # splitOn d (drop (i + length d) s)"
proof (induction s arbitrary: i)
  case Nil
  then show ?case by (simp add: findDelim_Some_iff occurs_def)
next
  case (Cons c cs)
  show ?case
  proof (cases "take (length d) (c # cs) = d")
    case True
    then have "length d \<le> length (c # cs)"
      by (rule take_eq_imp_le)
    with True have "occurs d (c # cs) 0"
      by (simp add: occurs_def)
    with Cons.prems(2) have "i = 0"
      by (auto simp: findDelim_Some_iff)
    with True Cons.prems(1) show ?thesis
      by (subst splitOn.simps) simp
  next
    case False
    then have no: "\<not> occurs d (c # cs) 0" by (simp add: occurs_def)
    with Cons.prems(2) obtain i' where i: "i = Suc i'"
      by (cases i) (auto simp: findDelim_Some_iff)
    have sh: "\<And>k. occurs d (c # cs) (Suc k) = occurs d cs k" by (simp add: occurs_def)
    from Cons.prems(2) i have "occurs d (c # cs) (Suc i')"
      and "\<And>k. k < Suc i' \<Longrightarrow> \<not> occurs d (c # cs) k"
      by (simp_all add: findDelim_Some_iff)
    then have "occurs d cs i'" and "\<And>k. k < i' \<Longrightarrow> \<not> occurs d cs k"
      using sh by (simp, metis Suc_less_eq)
    then have "findDelim d cs 0 = Some i'"
      by (simp add: findDelim_Some_iff)
    from Cons.IH [OF Cons.prems(1) this] False Cons.prems(1) i show ?thesis
      by (subst splitOn.simps) simp
  qed
qed

lemma splitOn_None:
  "d \<noteq> [] \<Longrightarrow> findDelim d s 0 = None \<Longrightarrow> splitOn d s = [s]"
proof (induction s)
  case Nil
  then show ?case by (subst splitOn.simps) simp
next
  case (Cons c cs)
  from Cons.prems(2) have no: "\<not> occurs d (c # cs) 0" by (simp add: findDelim_None_iff)
  have False: "take (length d) (c # cs) \<noteq> d"
  proof
    assume eq: "take (length d) (c # cs) = d"
    then have "length d \<le> length (c # cs)"
      by (rule take_eq_imp_le)
    with eq no show False by (simp add: occurs_def)
  qed
  have sh: "\<And>k. occurs d (c # cs) (Suc k) = occurs d cs k" by (simp add: occurs_def)
  from Cons.prems(2) have "\<And>k. \<not> occurs d (c # cs) (Suc k)"
    by (simp add: findDelim_None_iff)
  then have "findDelim d cs 0 = None"
    using sh by (simp add: findDelim_None_iff)
  from Cons.IH [OF Cons.prems(1) this] False Cons.prems(1) show ?case
    by (subst splitOn.simps) simp
qed

lemma splitOn_nonempty: "splitOn d s \<noteq> []"
  by (induction d s rule: splitOn.induct) (subst splitOn.simps, auto split: list.splits)

section \<open>\<open>Args\<close> on a stream, with a delimiter\<close>

text \<open>
  The specification of the tokens.  A token that ends at a delimiter loses one carriage
  return before the delimiter when the delimiter is the single byte \<open>LF\<close>, and nothing
  else; the last segment, which no delimiter ends, is a token as it is, unless it is empty.
\<close>

definition chomp :: "bytes \<Rightarrow> bytes \<Rightarrow> bytes" where
  "chomp d t = (if d = [LF] \<and> t \<noteq> [] \<and> last t = CR then butlast t else t)"

definition tokens_spec :: "bytes \<Rightarrow> bytes \<Rightarrow> bytes list" where
  "tokens_spec d s =
     (let segs = splitOn d s
      in map (chomp d) (butlast segs) @ (if last segs = [] then [] else [last segs]))"

text \<open>
  Every segment fits into the largest buffer of a scanner: a segment that a delimiter ends
  together with the delimiter, the last segment with a byte to spare.
\<close>

definition fits :: "bytes \<Rightarrow> bytes \<Rightarrow> bool" where
  "fits d s =
     (list_all (\<lambda>t. length t + length d \<le> maxTokenSize) (butlast (splitOn d s)) \<and>
      length (last (splitOn d s)) < maxTokenSize)"

lemma scanArgs_match:
  assumes "ArgsDelim inp \<noteq> []" and "findDelim (ArgsDelim inp) data 0 = Some i"
  shows "scanArgs inp data atEOF =
           Inr ((i + length (ArgsDelim inp), Some (chomp (ArgsDelim inp) (take i data)), None), inp)"
proof -
  let ?d = "ArgsDelim inp"
  from findDelim_bound [OF assms(2)] assms(1) have i: "i < length data"
    by (cases ?d) auto
  have lf: "(length ?d = 1 \<and> ?d ! 0 = LF) = (?d = [LF])"
    by (cases ?d) auto
  have "take (if i > 0 \<and> data ! (i - 1) = CR \<and> length ?d = 1 \<and> ?d ! 0 = LF then i - 1 else i) data
          = chomp ?d (take i data)"
  proof (cases "i > 0")
    case False
    then show ?thesis by (simp add: chomp_def)
  next
    case True
    with i have ne: "take i data \<noteq> []" by auto
    have "last (take i data) = take i data ! (length (take i data) - 1)"
      using ne by (rule last_conv_nth)
    with True i have "last (take i data) = data ! (i - 1)"
      by (simp add: min_def)
    moreover have "butlast (take i data) = take (i - 1) data"
      using i by (simp add: butlast_take)
    ultimately show ?thesis using True ne lf by (auto simp: chomp_def)
  qed
  with assms show ?thesis
    by (simp add: scanArgs_def Let_def)
qed

lemma scanArgs_nomatch:
  assumes "ArgsDelim inp \<noteq> []" and "findDelim (ArgsDelim inp) data 0 = None"
  shows "scanArgs inp data False = Inr ((0, None, None), inp)"
    and "scanArgs inp data True =
           Inr ((0, Some data, Some ErrFinalToken), inp\<lparr>skipToken := (data = [])\<rparr>)"
  using assms by (simp_all add: scanArgs_def)

lemma window_take_rest: "window s = take (length (window s)) (rest s)"
  by (simp add: rest_def)

lemma Scan_delim_token:
  assumes "ready s" and "ArgsDelim inp \<noteq> []"
    and "findDelim (ArgsDelim inp) (rest s) 0 = Some i"
    and "i + length (ArgsDelim inp) \<le> maxTokenSize"
  shows "\<exists>s'. Scan scanArgs inp s = Inr (True, inp, s') \<and> ready s' \<and>
           rest s' = drop (i + length (ArgsDelim inp)) (rest s) \<and>
           closing (r s') = closing (r s) \<and>
           Text s' = chomp (ArgsDelim inp) (take i (rest s))"
proof -
  let ?d = "ArgsDelim inp" and ?c = "rest s"
  let ?n = "length ?d"
  from findDelim_bound [OF assms(3)] have len: "i + ?n \<le> length ?c" by simp
  have "\<exists>sk. ready sk \<and> rest sk = ?c \<and> closing (r sk) = closing (r s) \<and>
          (window sk \<noteq> [] \<or> err sk \<noteq> None) \<and>
          (\<lambda>k eof. i + ?n \<le> k) (length (window sk)) (err sk \<noteq> None) \<and>
          scanLoop scanArgs inp sk = scanLoop scanArgs inp s"
  proof (rule scanLoop_forward [OF assms(1)])
    fix k eof
    assume k: "k \<le> length ?c" "eof \<Longrightarrow> k = length ?c" "k = 0 \<Longrightarrow> eof"
    show "i + ?n \<le> k \<or>
          (\<not> eof \<and> k < maxTokenSize \<and> scanArgs inp (take k ?c) False = Inr ((0, None, None), inp))"
    proof (cases "i + ?n \<le> k")
      case False
      then have short: "k < i + ?n" by simp
      with k(2) len have "\<not> eof" by auto
      moreover from short assms(4) have "k < maxTokenSize" by simp
      moreover have "scanArgs inp (take k ?c) False = Inr ((0, None, None), inp)"
        using scanArgs_nomatch(1) [OF assms(2) findDelim_take_short [OF assms(3) short]] .
      ultimately show ?thesis by simp
    qed simp
  qed
  then obtain sk where sk: "ready sk" "rest sk = ?c" "closing (r sk) = closing (r s)"
    "window sk \<noteq> [] \<or> err sk \<noteq> None" "i + ?n \<le> length (window sk)"
    "scanLoop scanArgs inp sk = scanLoop scanArgs inp s"
    by blast
  have w: "window sk = take (length (window sk)) ?c"
    using window_take_rest [of sk] sk(2) by simp
  have "findDelim ?d (window sk) 0 = Some i"
    using findDelim_take_Some [OF assms(3) sk(5)] w by simp
  from scanArgs_match [OF assms(2) this]
  have sp: "scanArgs inp (window sk) (err sk \<noteq> None) =
      Inr ((i + ?n, Some (chomp ?d (take i (window sk))), None), inp)" .
  have ti: "take i (window sk) = take i ?c"
    using sk(5) by (subst w) (simp add: min_def)
  from assms(2) have pos: "0 < i + ?n" by simp
  define s' where "s' = sk\<lparr>start := start sk + (i + ?n), window := drop (i + ?n) (window sk),
                            token := Some (chomp ?d (take i ?c)), empties := 0\<rparr>"
  have "tryToken scanArgs inp sk = Inr (Return True inp s')"
    using sp sk(5) pos ti by (simp add: tryToken_def s'_def)
  then have "scanLoop scanArgs inp sk = Inr (True, inp, s')"
    using sk(4) by (intro scanLoop_Return) simp_all
  with sk(6) sk(1) have "Scan scanArgs inp s = Inr (True, inp, s')"
    using assms(1) by (simp add: Scan_def ready_def)
  moreover have "ready s'"
    using sk(1) sk(5) by (simp add: ready_def s'_def)
  moreover have "rest s' = drop (i + ?n) ?c"
  proof -
    have "rest s' = drop (i + ?n) (window sk) @ contents (r sk)"
      by (simp add: rest_def s'_def)
    also have "\<dots> = drop (i + ?n) (rest sk)"
      using sk(5) by (simp add: rest_def)
    finally show ?thesis by (simp only: sk(2))
  qed
  moreover have "closing (r s') = closing (r s)"
    using sk(3) by (simp add: s'_def)
  moreover have "Text s' = chomp ?d (take i ?c)"
    by (simp add: Text_def s'_def)
  ultimately show ?thesis by blast
qed

lemma Scan_delim_final:
  assumes "ready s" and "ArgsDelim inp \<noteq> []"
    and "findDelim (ArgsDelim inp) (rest s) 0 = None"
    and "length (rest s) < maxTokenSize"
  shows "\<exists>s'. Scan scanArgs inp s = Inr (True, inp\<lparr>skipToken := (rest s = [])\<rparr>, s') \<and>
           isDone s' \<and> Text s' = rest s \<and> pending (r s') = [] \<and>
           closing (r s') = closing (r s)"
proof -
  let ?d = "ArgsDelim inp" and ?c = "rest s"
  have "\<exists>sk. ready sk \<and> rest sk = ?c \<and> closing (r sk) = closing (r s) \<and>
          (window sk \<noteq> [] \<or> err sk \<noteq> None) \<and>
          (\<lambda>k eof. eof) (length (window sk)) (err sk \<noteq> None) \<and>
          scanLoop scanArgs inp sk = scanLoop scanArgs inp s"
  proof (rule scanLoop_forward [OF assms(1)])
    fix k eof
    assume k: "k \<le> length ?c" "eof \<Longrightarrow> k = length ?c" "k = 0 \<Longrightarrow> eof"
    from k(1) assms(4) have "k < maxTokenSize" by simp
    moreover have "scanArgs inp (take k ?c) False = Inr ((0, None, None), inp)"
      using scanArgs_nomatch(1) [OF assms(2) findDelim_take_None [OF assms(3)]] .
    ultimately show "eof \<or>
          (\<not> eof \<and> k < maxTokenSize \<and> scanArgs inp (take k ?c) False = Inr ((0, None, None), inp))"
      by simp
  qed
  then obtain sk where sk: "ready sk" "rest sk = ?c" "closing (r sk) = closing (r s)"
    "err sk \<noteq> None" "scanLoop scanArgs inp sk = scanLoop scanArgs inp s"
    by blast
  from sk(1) sk(4) have p: "pending (r sk) = []" by (auto simp: ready_def)
  with sk(2) have w: "window sk = ?c" by (simp add: rest_def contents_def)
  from scanArgs_nomatch(2) [OF assms(2), of ?c] assms(3) w sk(4)
  have sp: "scanArgs inp (window sk) (err sk \<noteq> None) =
      Inr ((0, Some ?c, Some ErrFinalToken), inp\<lparr>skipToken := (?c = [])\<rparr>)"
    by simp
  define s' where "s' = sk\<lparr>token := Some ?c, isDone := True\<rparr>"
  have "tryToken scanArgs inp sk = Inr (Return True (inp\<lparr>skipToken := (?c = [])\<rparr>) s')"
    using sp by (simp add: tryToken_def s'_def)
  then have "scanLoop scanArgs inp sk = Inr (True, inp\<lparr>skipToken := (?c = [])\<rparr>, s')"
    using sk(4) by (intro scanLoop_Return) simp_all
  with sk(5) have "Scan scanArgs inp s = Inr (True, inp\<lparr>skipToken := (?c = [])\<rparr>, s')"
    using assms(1) by (simp add: Scan_def ready_def)
  moreover have "isDone s'" "Text s' = ?c" "pending (r s') = []" "closing (r s') = closing (r s)"
    using p sk(3) by (simp_all add: s'_def Text_def)
  ultimately show ?thesis by blast
qed

lemma tokens_spec_Some:
  assumes "d \<noteq> []" and "findDelim d s 0 = Some i"
  shows "tokens_spec d s = chomp d (take i s) # tokens_spec d (drop (i + length d) s)"
    and "last (splitOn d s) = last (splitOn d (drop (i + length d) s))"
    and "fits d s \<Longrightarrow> i + length d \<le> maxTokenSize \<and> fits d (drop (i + length d) s)"
proof -
  let ?ys = "splitOn d (drop (i + length d) s)"
  have sp: "splitOn d s = take i s # ?ys" using assms by (rule splitOn_Some)
  have ne: "?ys \<noteq> []" by (rule splitOn_nonempty)
  from findDelim_bound [OF assms(2)] have i: "length (take i s) = i" by simp
  show "tokens_spec d s = chomp d (take i s) # tokens_spec d (drop (i + length d) s)"
    using ne by (simp add: tokens_spec_def sp Let_def)
  show "last (splitOn d s) = last ?ys"
    using ne by (simp add: sp)
  show "i + length d \<le> maxTokenSize \<and> fits d (drop (i + length d) s)" if "fits d s"
    using that ne i by (simp add: fits_def sp)
qed

lemma tokens_spec_None:
  assumes "d \<noteq> []" and "findDelim d s 0 = None"
  shows "tokens_spec d s = (if s = [] then [] else [s])"
    and "last (splitOn d s) = s"
    and "fits d s \<Longrightarrow> length s < maxTokenSize"
  using splitOn_None [OF assms] by (simp_all add: tokens_spec_def fits_def)

lemma scanTokens_True:
  "Scan scanArgs inp s = Inr (True, inp', s') \<Longrightarrow>
     scanTokens inp s a = scanTokens inp' s' (if \<not> skipToken inp' then a @ [Text s'] else a)"
  by (subst scanTokens.simps) simp

lemma scanTokens_False:
  "Scan scanArgs inp s = Inr (False, inp', s') \<Longrightarrow> scanTokens inp s a = Inr (a, inp', s')"
  by (subst scanTokens.simps) simp

lemma Scan_isDone: "isDone s \<Longrightarrow> Scan split st s = Inr (False, st, s)"
  by (simp add: Scan_def)

text \<open>
  The loop of \<open>Args\<close> on a scanner that is ready: it appends the tokens of what is left,
  uses the stream up, and leaves \<open>skipToken\<close> set when the last segment is empty.
\<close>

lemma scanTokens_delim:
  assumes "ready s" and "ArgsDelim inp \<noteq> []" and "fits (ArgsDelim inp) (rest s)"
    and "\<not> skipToken inp"
  shows "\<exists>s'. scanTokens inp s a =
           Inr (a @ tokens_spec (ArgsDelim inp) (rest s),
                inp\<lparr>skipToken := (last (splitOn (ArgsDelim inp) (rest s)) = [])\<rparr>, s') \<and>
           pending (r s') = [] \<and> closing (r s') = closing (r s)"
  using assms(1,3)
proof (induction "length (rest s)" arbitrary: s a rule: less_induct)
  case less
  let ?d = "ArgsDelim inp" and ?c = "rest s"
  show ?case
  proof (cases "findDelim ?d ?c 0")
    case (Some i)
    note spec = tokens_spec_Some [OF assms(2) Some]
    from spec(3) [OF less.prems(2)]
    have fit: "i + length ?d \<le> maxTokenSize" "fits ?d (drop (i + length ?d) ?c)" by simp_all
    from Scan_delim_token [OF less.prems(1) assms(2) Some fit(1)] obtain s1 where
      s1: "Scan scanArgs inp s = Inr (True, inp, s1)" "ready s1"
        "rest s1 = drop (i + length ?d) ?c" "closing (r s1) = closing (r s)"
        "Text s1 = chomp ?d (take i ?c)"
      by blast
    from assms(2) have pos: "0 < length ?d" by simp
    have "length (rest s1) = length ?c - (i + length ?d)"
      by (simp add: s1(3))
    with findDelim_bound [OF Some] pos have "length (rest s1) < length ?c"
      by arith
    from less.hyps [OF this s1(2), of "a @ [Text s1]"] fit(2) s1(3)
    obtain s' where "scanTokens inp s1 (a @ [Text s1]) =
        Inr ((a @ [Text s1]) @ tokens_spec ?d (rest s1),
             inp\<lparr>skipToken := (last (splitOn ?d (rest s1)) = [])\<rparr>, s')"
      "pending (r s') = []" "closing (r s') = closing (r s1)"
      by auto
    moreover have "scanTokens inp s a = scanTokens inp s1 (a @ [Text s1])"
      using scanTokens_True [OF s1(1)] assms(4) by simp
    ultimately show ?thesis
      using spec(1,2) s1(3,4,5) by auto
  next
    case None
    note spec = tokens_spec_None [OF assms(2) None]
    from Scan_delim_final [OF less.prems(1) assms(2) None spec(3) [OF less.prems(2)]]
    obtain s1 where s1: "Scan scanArgs inp s = Inr (True, inp\<lparr>skipToken := (?c = [])\<rparr>, s1)"
      "isDone s1" "Text s1 = ?c" "pending (r s1) = []" "closing (r s1) = closing (r s)"
      by blast
    let ?a = "if ?c = [] then a else a @ [?c]"
    have "scanTokens inp s a = scanTokens (inp\<lparr>skipToken := (?c = [])\<rparr>) s1 ?a"
      using scanTokens_True [OF s1(1)] s1(3) by simp
    also have "\<dots> = Inr (?a, inp\<lparr>skipToken := (?c = [])\<rparr>, s1)"
      using Scan_isDone [OF s1(2)] by (rule scanTokens_False)
    finally show ?thesis
      using spec(1,2) s1(4,5) by auto
  qed
qed

text \<open>
  \<open>Args\<close> without arguments and with a delimiter, on a stream that delivers no empty
  piece and whose segments fit the buffer: the result is the tokens of the content of the
  stream, whatever the pieces in which the stream delivers it and whether it ends with
  \<open>EOF\<close> or with a failure; the stream is left used up.
\<close>

lemma Args_delim:
  assumes "ArgsDelim inp \<noteq> []" and "steady (Stream inp)"
    and "fits (ArgsDelim inp) (contents (Stream inp))"
  shows "Args inp [] =
           Inr (tokens_spec (ArgsDelim inp) (contents (Stream inp)),
                inp\<lparr>skipToken := (last (splitOn (ArgsDelim inp) (contents (Stream inp))) = []),
                    Stream := \<lparr>pending = [], closing = closing (Stream inp)\<rparr>\<rparr>)"
proof -
  let ?inp = "inp\<lparr>skipToken := False\<rparr>" and ?s = "NewScanner (Stream inp)"
  have rd: "ready ?s" using assms(2) by (rule ready_NewScanner)
  have rs: "rest ?s = contents (Stream inp)" by (rule rest_NewScanner)
  have cl: "r ?s = Stream inp" by (simp add: NewScanner_def)
  have d: "ArgsDelim ?inp \<noteq> []" "\<not> skipToken ?inp" "ArgsDelim ?inp = ArgsDelim inp"
    using assms(1) by simp_all
  have f: "fits (ArgsDelim ?inp) (rest ?s)"
    using assms(3) by (simp only: rs d(3))
  from scanTokens_delim [OF rd d(1) f d(2), of "[]"]
  obtain s' where s': "scanTokens ?inp ?s [] =
      Inr ([] @ tokens_spec (ArgsDelim inp) (contents (Stream inp)),
           ?inp\<lparr>skipToken := (last (splitOn (ArgsDelim inp) (contents (Stream inp))) = [])\<rparr>, s')"
    "pending (r s') = []" "closing (r s') = closing (Stream inp)"
    unfolding rs d(3) cl by blast
  from s'(2,3) have "r s' = \<lparr>pending = [], closing = closing (Stream inp)\<rparr>"
    by (cases "r s'") simp
  with s'(1) show ?thesis
    by (simp add: Args_def Let_def)
qed

lemma Default_simps:
  "Stream (Default rd) = rd" "Literal (Default rd) = False" "ArgsDelim (Default rd) = [LF]"
  "ReadDelim (Default rd) = '' ''" "skipToken (Default rd) = False"
  by (simp_all add: Default_def input_def)

lemma chomp_cases:
  "chomp d t = (if d = [LF] \<and> t \<noteq> [] \<and> last t = CR then butlast t else t)"
  by (simp add: chomp_def)

text \<open>
  When the largest buffer is full of bytes without a delimiter, the scanner gives up with
  \<open>ErrTooLong\<close>: \<open>Scan\<close> returns \<open>False\<close> and the rest of the stream is left unread.
  The loop of \<open>Args\<close> ends there.  (\<open>P\<close> is any property of the stream that every
  \<open>Read\<close> keeps.)
\<close>

lemma Scan_too_long:
  assumes "ready s" and "ArgsDelim inp \<noteq> []"
    and "findDelim (ArgsDelim inp) (take maxTokenSize (rest s)) 0 = None"
    and "maxTokenSize < length (rest s)"
    and "P (r s)"
    and inv: "\<And>rd cap bs e rd'. P rd \<Longrightarrow> Read rd cap = (bs, e, rd') \<Longrightarrow> P rd'"
  shows "\<exists>s'. Scan scanArgs inp s = Inr (False, inp, s') \<and>
           contents (r s') = drop maxTokenSize (rest s) \<and> steady (r s') \<and>
           closing (r s') = closing (r s) \<and> P (r s')"
proof -
  let ?d = "ArgsDelim inp" and ?c = "rest s"
  have "\<exists>sk. ready sk \<and> rest sk = ?c \<and> closing (r sk) = closing (r s) \<and>
          (window sk \<noteq> [] \<or> err sk \<noteq> None) \<and>
          (\<lambda>k eof. maxTokenSize \<le> k) (length (window sk)) (err sk \<noteq> None) \<and>
          scanLoop scanArgs inp sk = scanLoop scanArgs inp s \<and> P (r sk)"
  proof (rule scanLoop_forward_inv [where P = P, OF assms(1)])
    show "P (r s)" by (rule assms(5))
  next
    fix rd cap bs e rd'
    assume "P rd" "Read rd cap = (bs, e, rd')"
    then show "P rd'" by (rule inv)
  next
    fix k eof
    assume k: "k \<le> length ?c" "eof \<Longrightarrow> k = length ?c" "k = 0 \<Longrightarrow> eof"
    show "maxTokenSize \<le> k \<or>
          (\<not> eof \<and> k < maxTokenSize \<and> scanArgs inp (take k ?c) False = Inr ((0, None, None), inp))"
    proof (cases "maxTokenSize \<le> k")
      case False
      then have short: "k < maxTokenSize" by simp
      with k(2) assms(4) have "\<not> eof" by auto
      moreover have "take k (take maxTokenSize ?c) = take k ?c"
        using short by (simp add: min_def)
      with findDelim_take_None [OF assms(3), of k] have "findDelim ?d (take k ?c) 0 = None"
        by simp
      then have "scanArgs inp (take k ?c) False = Inr ((0, None, None), inp)"
        by (rule scanArgs_nomatch(1) [OF assms(2)])
      ultimately show ?thesis using short by simp
    qed simp
  qed
  then obtain sk where sk: "ready sk" "rest sk = ?c" "closing (r sk) = closing (r s)"
    "maxTokenSize \<le> length (window sk)"
    "scanLoop scanArgs inp sk = scanLoop scanArgs inp s" "P (r sk)"
    by blast
  from sk(1) have inv: "start sk + length (window sk) \<le> buflen sk" "buflen sk \<le> maxTokenSize"
    "steady (r sk)" "err sk = None \<or> pending (r sk) = []"
    by (simp_all add: ready_def)
  from inv(1,2) sk(4) have full: "start sk = 0" "length (window sk) = maxTokenSize"
    "buflen sk = maxTokenSize"
    by simp_all
  have noerr: "err sk = None"
  proof (rule ccontr)
    assume "err sk \<noteq> None"
    with inv(4) have "pending (r sk) = []" by simp
    then have "rest sk = window sk" by (simp add: rest_def contents_def)
    with sk(2) full(2) assms(4) show False by simp
  qed
  have w: "window sk = take maxTokenSize ?c"
    using window_take_rest [of sk] sk(2) full(2) by simp
  have ne: "window sk \<noteq> []" using full(2) by (auto simp: maxTokenSize_def)
  define s1 where "s1 = sk\<lparr>start := start sk + 0, window := drop 0 (window sk), token := None\<rparr>"
  have "scanArgs inp (window sk) (err sk \<noteq> None) = Inr ((0, None, None), inp)"
    using scanArgs_nomatch(1) [OF assms(2), of "window sk"] assms(3) w noerr by simp
  then have t: "tryToken scanArgs inp sk = Inr (Continue inp s1)"
    by (simp add: tryToken_def s1_def)
  have sh: "shift s1 = s1" using full(1) by (simp add: shift_def s1_def)
  have gr: "grow s1 = Inl (setErr ErrTooLong s1)"
    using full by (simp add: grow_def s1_def)
  have e1: "err s1 = None" using noerr by (simp add: s1_def)
  have "scanLoop scanArgs inp sk = Inr (False, inp, setErr ErrTooLong s1)"
    using ne t e1 sh gr by (subst scanLoop.simps) simp
  with sk(5) have "Scan scanArgs inp s = Inr (False, inp, setErr ErrTooLong s1)"
    using assms(1) by (simp add: Scan_def ready_def)
  moreover have rr: "r (setErr ErrTooLong s1) = r sk" by (simp add: setErr_def s1_def)
  have "contents (r sk) = drop (length (window sk)) (rest sk)" by (simp add: rest_def)
  then have "contents (r (setErr ErrTooLong s1)) = drop maxTokenSize ?c"
    by (simp only: rr full(2) sk(2))
  moreover have "steady (r (setErr ErrTooLong s1))" "closing (r (setErr ErrTooLong s1)) = closing (r s)"
    "P (r (setErr ErrTooLong s1))"
    using inv(3) sk(3,6) by (simp_all only: rr)
  ultimately show ?thesis by blast
qed

lemma Args_too_long:
  assumes "ArgsDelim inp \<noteq> []" and "steady (Stream inp)"
    and "findDelim (ArgsDelim inp) (take maxTokenSize (contents (Stream inp))) 0 = None"
    and "maxTokenSize < length (contents (Stream inp))"
    and "P (Stream inp)"
    and inv: "\<And>rd cap bs e rd'. P rd \<Longrightarrow> Read rd cap = (bs, e, rd') \<Longrightarrow> P rd'"
  shows "\<exists>rd. Args inp [] = Inr ([], inp\<lparr>skipToken := False, Stream := rd\<rparr>) \<and>
           contents rd = drop maxTokenSize (contents (Stream inp)) \<and> steady rd \<and>
           closing rd = closing (Stream inp) \<and> P rd"
proof -
  let ?inp = "inp\<lparr>skipToken := False\<rparr>" and ?s = "NewScanner (Stream inp)"
  have rd: "ready ?s" using assms(2) by (rule ready_NewScanner)
  have rs: "rest ?s = contents (Stream inp)" by (rule rest_NewScanner)
  have cl: "r ?s = Stream inp" by (simp add: NewScanner_def)
  have d: "ArgsDelim ?inp \<noteq> []" "ArgsDelim ?inp = ArgsDelim inp"
    using assms(1) by simp_all
  have f: "findDelim (ArgsDelim ?inp) (take maxTokenSize (rest ?s)) 0 = None"
    using assms(3) by (simp only: rs d(2))
  have l: "maxTokenSize < length (rest ?s)" using assms(4) by (simp only: rs)
  have p: "P (r ?s)" using assms(5) by (simp only: cl)
  have "\<exists>s'. Scan scanArgs ?inp ?s = Inr (False, ?inp, s') \<and>
      contents (r s') = drop maxTokenSize (rest ?s) \<and> steady (r s') \<and>
      closing (r s') = closing (r ?s) \<and> P (r s')"
  proof (rule Scan_too_long [where P = P, OF rd d(1) f l p])
    fix rd cap bs e rd'
    assume "P rd" "Read rd cap = (bs, e, rd')"
    then show "P rd'" by (rule inv)
  qed
  then obtain s' where
    s': "Scan scanArgs ?inp ?s = Inr (False, ?inp, s')"
      "contents (r s') = drop maxTokenSize (contents (Stream inp))" "steady (r s')"
      "closing (r s') = closing (Stream inp)" "P (r s')"
    unfolding rs cl by blast
  from scanTokens_False [OF s'(1), of "[]"]
  have "Args inp [] = Inr ([], ?inp\<lparr>Stream := r s'\<rparr>)"
    by (simp add: Args_def Let_def)
  with s'(2-5) show ?thesis by auto
qed

text \<open>The same on a stream of one piece: the stream is left with the rest of the piece.\<close>

lemma Args_too_long_single:
  assumes "ArgsDelim inp \<noteq> []" and "pending (Stream inp) = [c]"
    and "findDelim (ArgsDelim inp) (take maxTokenSize c) 0 = None"
    and "maxTokenSize < length c"
  shows "Args inp [] =
           Inr ([], inp\<lparr>skipToken := False, Stream := (Stream inp)\<lparr>pending := [drop maxTokenSize c]\<rparr>\<rparr>)"
proof -
  define P where "P rd = (pending rd = [] \<or> (\<exists>n. pending rd = [drop n c]))" for rd :: reader
  have c: "contents (Stream inp) = c" using assms(2) by (simp add: contents_def)
  from assms(4) have ne: "c \<noteq> []" by auto
  have st: "steady (Stream inp)" using assms(2) ne by (simp add: steady_def)
  have p0: "P (Stream inp)"
    unfolding P_def using assms(2) by (auto intro: exI [of _ 0])
  have "\<exists>rd. Args inp [] = Inr ([], inp\<lparr>skipToken := False, Stream := rd\<rparr>) \<and>
      contents rd = drop maxTokenSize (contents (Stream inp)) \<and> steady rd \<and>
      closing rd = closing (Stream inp) \<and> P rd"
  proof (rule Args_too_long [where P = P, OF assms(1) st _ _ p0])
    show "findDelim (ArgsDelim inp) (take maxTokenSize (contents (Stream inp))) 0 = None"
      using assms(3) by (simp only: c)
    show "maxTokenSize < length (contents (Stream inp))"
      using assms(4) by (simp only: c)
  next
    fix rd cap bs e rd'
    assume "P rd" and rd: "Read rd cap = (bs, e, rd')"
    then consider "pending rd = []" | n where "pending rd = [drop n c]"
      unfolding P_def by blast
    then show "P rd'"
    proof cases
      case 1
      with rd show ?thesis by (auto simp: Read_def P_def)
    next
      case 2
      show ?thesis
      proof (cases "length (drop n c) \<le> cap")
        case True
        with 2 rd show ?thesis by (auto simp: Read_def P_def)
      next
        case False
        with 2 rd have "pending rd' = [drop (n + cap) c]"
          by (auto simp: Read_def add.commute)
        then show ?thesis unfolding P_def by blast
      qed
    qed
  qed
  then obtain rd where rd: "Args inp [] = Inr ([], inp\<lparr>skipToken := False, Stream := rd\<rparr>)"
    "contents rd = drop maxTokenSize c" "closing rd = closing (Stream inp)" "P rd"
    unfolding c by blast
  from assms(4) have left: "drop maxTokenSize c \<noteq> []" by simp
  with rd(2) have "pending rd \<noteq> []" by (auto simp: contents_def)
  with rd(4) obtain n where n: "pending rd = [drop n c]" unfolding P_def by blast
  with rd(2) have "pending rd = [drop maxTokenSize c]" by (simp add: contents_def)
  with rd(3) have "rd = (Stream inp)\<lparr>pending := [drop maxTokenSize c]\<rparr>"
    by (cases rd, cases "Stream inp") simp
  with rd(1) show ?thesis by simp
qed

text \<open>Where a delimiter stands after a run of one byte that is not in it.\<close>

lemma findDelim_replicate_None:
  assumes "d \<noteq> []" and "x \<notin> set d"
  shows "findDelim d (replicate n x) 0 = None"
  unfolding findDelim_None_iff
proof (intro allI impI notI)
  fix k assume "0 \<le> k" and o: "occurs d (replicate n x) k"
  then have "take (length d) (replicate (n - k) x) = d" by (simp add: occurs_def)
  then have "d = replicate (min (length d) (n - k)) x" by simp
  then obtain m where "d = replicate m x" ..
  with assms show False by (cases m) auto
qed

lemma findDelim_replicate_Some:
  assumes "d \<noteq> []" and "x \<notin> set d"
  shows "findDelim d (replicate n x @ d @ t) 0 = Some n"
  unfolding findDelim_Some_iff
proof (intro conjI allI impI)
  show "occurs d (replicate n x @ d @ t) n" by (simp add: occurs_def)
next
  fix k assume k: "0 \<le> k \<and> k < n"
  show "\<not> occurs d (replicate n x @ d @ t) k"
  proof
    assume "occurs d (replicate n x @ d @ t) k"
    then have eq: "take (length d) (drop k (replicate n x @ d @ t)) = d"
      by (simp only: occurs_def)
    from assms(1) have pos: "0 < length d" by simp
    have "d ! 0 = take (length d) (drop k (replicate n x @ d @ t)) ! 0"
      by (simp only: eq)
    also have "\<dots> = drop k (replicate n x @ d @ t) ! 0"
      using pos by (rule nth_take)
    also have "\<dots> = (replicate n x @ d @ t) ! (k + 0)"
      using k by (intro nth_drop) simp
    also have "\<dots> = (replicate n x @ d @ t) ! k"
      by simp
    also have "\<dots> = x"
      using k by (simp add: nth_append)
    finally have "d ! 0 = x" .
    with pos assms(2) nth_mem [of 0 d] show False by simp
  qed
qed simp

text \<open>
  When more than \<open>maxConsecutiveEmptyReads\<close> reads in a row deliver nothing and report no
  error, \<open>fill\<close> sets \<open>io.ErrNoProgress\<close>, and the scanner treats what it has as the
  end of the input: \<open>Args\<close> on such a beginning of the stream returns no token and
  leaves what follows unread.
\<close>

lemma fill_no_progress:
  "err s = None \<Longrightarrow> pending (r s) = replicate k [] @ cs \<Longrightarrow>
   loop + k = Suc maxConsecutiveEmptyReads \<Longrightarrow> 0 < k \<Longrightarrow>
     fill s loop = setErr ErrNoProgress (s\<lparr>r := (r s)\<lparr>pending := cs\<rparr>\<rparr>)"
proof (induction k arbitrary: s loop)
  case 0
  then show ?case by simp
next
  case (Suc k)
  let ?cap = "buflen s - (start s + length (window s))"
  let ?s1 = "s\<lparr>r := (r s)\<lparr>pending := replicate k [] @ cs\<rparr>\<rparr>"
  from Suc.prems(2) have rd: "Read (r s) ?cap = ([], None, (r s)\<lparr>pending := replicate k [] @ cs\<rparr>)"
    by (simp add: Read_def)
  show ?case
  proof (cases "k = 0")
    case True
    with Suc.prems(3) have "loop + 1 > maxConsecutiveEmptyReads" by simp
    with rd True show ?thesis by (subst fill.simps) simp
  next
    case False
    with Suc.prems(3) have "\<not> loop + 1 > maxConsecutiveEmptyReads" by simp
    with rd have "fill s loop = fill ?s1 (loop + 1)" by (subst fill.simps) simp
    also have "\<dots> = setErr ErrNoProgress (?s1\<lparr>r := (r ?s1)\<lparr>pending := cs\<rparr>\<rparr>)"
      using Suc.prems(1,3) False by (intro Suc.IH) simp_all
    finally show ?thesis by simp
  qed
qed

lemma Args_no_progress:
  assumes "pending (Stream inp) = replicate (Suc maxConsecutiveEmptyReads) [] @ cs"
  shows "Args inp [] =
           Inr ([], inp\<lparr>skipToken := (ArgsDelim inp \<noteq> []), Stream := (Stream inp)\<lparr>pending := cs\<rparr>\<rparr>)"
proof -
  let ?inp = "inp\<lparr>skipToken := False\<rparr>" and ?s = "NewScanner (Stream inp)"
  let ?rd = "(Stream inp)\<lparr>pending := cs\<rparr>"
  define s2 where "s2 = ?s\<lparr>buflen := startBufSize, start := 0\<rparr>"
  define s3 where "s3 = s2\<lparr>r := ?rd, err := Some ErrNoProgress\<rparr>"
  have sh: "shift ?s = ?s" by (simp add: shift_def NewScanner_def)
  have gr: "grow ?s = Inr s2"
    by (simp add: grow_def NewScanner_def s2_def maxTokenSize_def maxInt_def startBufSize_def)
  have "fill s2 0 = setErr ErrNoProgress (s2\<lparr>r := (r s2)\<lparr>pending := cs\<rparr>\<rparr>)"
    by (rule fill_no_progress [where k = "Suc maxConsecutiveEmptyReads"])
       (simp_all add: s2_def NewScanner_def assms)
  then have fl: "fill s2 0 = s3"
    by (simp add: setErr_def s2_def s3_def NewScanner_def)
  have first: "scanLoop scanArgs ?inp ?s = scanLoop scanArgs ?inp s3"
    using sh gr fl by (subst scanLoop.simps) (simp add: NewScanner_def)
  have w3: "window s3 = []" "err s3 = Some ErrNoProgress" "r s3 = ?rd" "\<not> isDone ?s"
    by (simp_all add: s3_def s2_def NewScanner_def)
  show ?thesis
  proof (cases "ArgsDelim inp = []")
    case True
    have "scanArgs ?inp (window s3) (err s3 \<noteq> None) = Inr ((0, None, None), ?inp)"
      using True w3 by (simp add: scanArgs_def ScanRunes_def)
    then have "tryToken scanArgs ?inp s3 =
        Inr (Continue ?inp (s3\<lparr>start := start s3 + 0, window := drop 0 (window s3), token := None\<rparr>))"
      by (simp add: tryToken_def)
    then have "scanLoop scanArgs ?inp s3 =
        Inr (False, ?inp, s3\<lparr>token := None, start := 0, window := []\<rparr>)"
      using w3 by (subst scanLoop.simps) simp
    with first w3(4) have "Scan scanArgs ?inp ?s =
        Inr (False, ?inp, s3\<lparr>token := None, start := 0, window := []\<rparr>)"
      by (simp add: Scan_def)
    from scanTokens_False [OF this, of "[]"] True w3(3) show ?thesis
      by (simp add: Args_def Let_def)
  next
    case False
    have fd: "findDelim (ArgsDelim ?inp) [] 0 = None"
      using False by (subst findDelim.simps) simp
    define s4 where "s4 = s3\<lparr>token := Some [], isDone := True\<rparr>"
    have "scanArgs ?inp (window s3) (err s3 \<noteq> None) =
        Inr ((0, Some [], Some ErrFinalToken), ?inp\<lparr>skipToken := True\<rparr>)"
      using scanArgs_nomatch(2) [of ?inp "[]"] False fd w3 by simp
    then have "tryToken scanArgs ?inp s3 = Inr (Return True (?inp\<lparr>skipToken := True\<rparr>) s4)"
      by (simp add: tryToken_def s4_def)
    then have "scanLoop scanArgs ?inp s3 = Inr (True, ?inp\<lparr>skipToken := True\<rparr>, s4)"
      using w3 by (subst scanLoop.simps) simp
    with first w3(4) have "Scan scanArgs ?inp ?s = Inr (True, ?inp\<lparr>skipToken := True\<rparr>, s4)"
      by (simp add: Scan_def)
    from scanTokens_True [OF this, of "[]"]
    have "scanTokens ?inp ?s [] = scanTokens (?inp\<lparr>skipToken := True\<rparr>) s4 []" by simp
    also have "\<dots> = Inr ([], ?inp\<lparr>skipToken := True\<rparr>, s4)"
      by (rule scanTokens_False [OF Scan_isDone]) (simp add: s4_def)
    finally show ?thesis using False w3(3)
      by (simp add: Args_def Let_def s4_def)
  qed
qed


text \<open>
  C1, as stated, fails on a stream with a segment too long for the scanner, and on a stream
  that delivers nothing too often.  The content of 65536 bytes \<open>x\<close> followed by
  \<open>LF LF b\<close> has three segments: the bytes \<open>x\<close>, the empty segment between the two
  delimiters, and \<open>b\<close>.  The scanner fills its largest buffer without finding a
  delimiter and gives up (\<open>ErrTooLong\<close>); \<open>Args\<close>, which does not look at the error
  of the scanner, returns no token at all, the empty one between the two delimiters
  included, and leaves the rest of the stream unread.  And after 101 reads in a row that
  deliver nothing and report no error the scanner gives up as well
  (\<open>io.ErrNoProgress\<close>): of \<open>a LF LF b\<close>, which the stream would deliver next,
  \<open>Args\<close> returns nothing.
\<close>

theorem Args_loses_tokens_when_scanner_gives_up:
  "Args (Default \<lparr>pending = [replicate 65536 (CHR ''x'') @ [LF, LF] @ ''b''], closing = EOF\<rparr>) []
     = Inr ([], Default \<lparr>pending = [[LF, LF] @ ''b''], closing = EOF\<rparr>) \<and>
   splitOn [LF] (replicate 65536 (CHR ''x'') @ [LF, LF] @ ''b'')
     = [replicate 65536 (CHR ''x''), [], ''b''] \<and>
   Args (Default \<lparr>pending = replicate 101 [] @ [''a'' @ [LF, LF] @ ''b''], closing = EOF\<rparr>) []
     = Inr ([], (Default \<lparr>pending = [''a'' @ [LF, LF] @ ''b''], closing = EOF\<rparr>)\<lparr>skipToken := True\<rparr>) \<and>
   splitOn [LF] (''a'' @ [LF, LF] @ ''b'') = [''a'', [], ''b'']"
proof -
  let ?c = "replicate 65536 (CHR ''x'') @ [LF, LF] @ ''b''"
  let ?i = "Default \<lparr>pending = [?c], closing = EOF\<rparr>"
  let ?j = "Default \<lparr>pending = replicate 101 [] @ [''a'' @ [LF, LF] @ ''b''], closing = EOF\<rparr>"
  have x: "CHR ''x'' \<notin> set [LF]" by (simp add: LF_def)
  have "findDelim [LF] (replicate 65536 (CHR ''x'')) 0 = None"
    by (rule findDelim_replicate_None [OF _ x]) simp
  then have f: "findDelim (ArgsDelim ?i) (take maxTokenSize ?c) 0 = None"
    by (simp add: Default_simps maxTokenSize_def)
  have l: "maxTokenSize < length ?c" by (simp add: maxTokenSize_def)
  have d: "drop maxTokenSize ?c = [LF, LF] @ ''b''" by (simp add: maxTokenSize_def)
  have "Args ?i [] = Inr ([], ?i\<lparr>skipToken := False, Stream := (Stream ?i)\<lparr>pending := [drop maxTokenSize ?c]\<rparr>\<rparr>)"
    by (rule Args_too_long_single [OF _ _ f l]) (simp_all add: Default_simps)
  moreover have "?i\<lparr>skipToken := False, Stream := (Stream ?i)\<lparr>pending := [drop maxTokenSize ?c]\<rparr>\<rparr>
      = Default \<lparr>pending = [[LF, LF] @ ''b''], closing = EOF\<rparr>"
    unfolding d Default_def input_def by simp
  ultimately have 1: "Args ?i [] = Inr ([], Default \<lparr>pending = [[LF, LF] @ ''b''], closing = EOF\<rparr>)"
    by (simp only:)
  have "findDelim [LF] (replicate 65536 (CHR ''x'') @ [LF] @ ([LF] @ ''b'')) 0 = Some 65536"
    by (rule findDelim_replicate_Some [OF _ x]) simp
  from splitOn_Some [OF _ this]
  have "splitOn [LF] ?c = replicate 65536 (CHR ''x'') # splitOn [LF] ([LF] @ ''b'')"
    by simp
  moreover have "splitOn [LF] ([LF] @ ''b'') = [[], ''b'']"
    by (simp add: splitOn.simps findDelim.simps LF_def)
  ultimately have 2: "splitOn [LF] ?c = [replicate 65536 (CHR ''x''), [], ''b'']"
    by (simp only:)
  have p: "pending (Stream ?j) = replicate (Suc maxConsecutiveEmptyReads) [] @ [''a'' @ [LF, LF] @ ''b'']"
    by (simp add: Default_simps maxConsecutiveEmptyReads_def)
  have "?j\<lparr>skipToken := (ArgsDelim ?j \<noteq> []), Stream := (Stream ?j)\<lparr>pending := [''a'' @ [LF, LF] @ ''b'']\<rparr>\<rparr>
      = (Default \<lparr>pending = [''a'' @ [LF, LF] @ ''b''], closing = EOF\<rparr>)\<lparr>skipToken := True\<rparr>"
    unfolding Default_def input_def by simp
  with Args_no_progress [OF p]
  have 3: "Args ?j [] = Inr ([], (Default \<lparr>pending = [''a'' @ [LF, LF] @ ''b''], closing = EOF\<rparr>)\<lparr>skipToken := True\<rparr>)"
    by (simp only:)
  have 4: "splitOn [LF] (''a'' @ [LF, LF] @ ''b'') = [''a'', [], ''b'']"
    by (simp add: splitOn.simps findDelim.simps LF_def)
  from 1 2 3 4 show ?thesis by (intro conjI)
qed

text \<open>
  C1, amended: \<open>Args\<close> without arguments and with a non-empty \<open>ArgsDelim\<close>, on a stream
  that is steady and whose segments fit the largest buffer of the scanner, returns one
  token for every segment of the content of the fallback stream, in order, empty segments
  between consecutive delimiters included, except that the last segment gives no token
  when it is empty, that is when the stream ends on a delimiter (or is empty):
  \<open>scanArgs\<close> computes that token and sets \<open>skipToken\<close>, and the loop of \<open>Args\<close> drops
  it.  So exactly the last token is dropped, and only when it is empty.
\<close>

theorem Args_drops_only_final_empty_token:
  assumes "ArgsDelim inp \<noteq> []" and "steady (Stream inp)"
    and "fits (ArgsDelim inp) (contents (Stream inp))"
    and "segs = splitOn (ArgsDelim inp) (contents (Stream inp))"
  shows "Args inp [] =
           Inr (map (chomp (ArgsDelim inp)) (butlast segs) @ (if last segs = [] then [] else [last segs]),
                inp\<lparr>skipToken := (last segs = []),
                    Stream := \<lparr>pending = [], closing = closing (Stream inp)\<rparr>\<rparr>)"
  using Args_delim [OF assms(1-3)] unfolding assms(4) tokens_spec_def Let_def .

theorem Args_drops_only_final_empty_token_witness:
  "Args (Default \<lparr>pending = [''a'' @ [LF] @ ''b'' @ [LF]], closing = EOF\<rparr>) []
     = Inr ([''a'', ''b''],
            (Default \<lparr>pending = [], closing = EOF\<rparr>)\<lparr>skipToken := True\<rparr>) \<and>
   Args (Default \<lparr>pending = [''a'' @ [LF], [], [LF] @ ''b''], closing = EOF\<rparr>) []
     = Inr ([''a'', [], ''b''], Default \<lparr>pending = [], closing = EOF\<rparr>)"
proof -
  let ?i1 = "Default \<lparr>pending = [''a'' @ [LF] @ ''b'' @ [LF]], closing = EOF\<rparr>"
  let ?i2 = "Default \<lparr>pending = [''a'' @ [LF], [], [LF] @ ''b''], closing = EOF\<rparr>"
  have d: "ArgsDelim ?i1 \<noteq> []" "ArgsDelim ?i2 \<noteq> []"
    by (simp_all add: Default_simps)
  have p: "steady (Stream ?i1)" "steady (Stream ?i2)"
    by (simp_all add: Default_simps steady_def maxConsecutiveEmptyReads_def)
  have s1: "splitOn (ArgsDelim ?i1) (contents (Stream ?i1)) = [''a'', ''b'', []]"
    by (simp add: Default_simps contents_def splitOn.simps LF_def)
  have s2: "splitOn (ArgsDelim ?i2) (contents (Stream ?i2)) = [''a'', [], ''b'']"
    by (simp add: Default_simps contents_def splitOn.simps LF_def)
  have f: "fits (ArgsDelim ?i1) (contents (Stream ?i1))" "fits (ArgsDelim ?i2) (contents (Stream ?i2))"
    unfolding fits_def s1 s2 by (simp_all add: maxTokenSize_def Default_simps)
  have c: "chomp [LF] ''a'' = ''a''" "chomp [LF] ''b'' = ''b''" "chomp [LF] [] = []"
    by (simp_all add: chomp_def CR_def)
  have r1: "?i1\<lparr>skipToken := True, Stream := \<lparr>pending = [], closing = EOF\<rparr>\<rparr>
      = (Default \<lparr>pending = [], closing = EOF\<rparr>)\<lparr>skipToken := True\<rparr>"
    unfolding Default_def input_def by simp
  have r2: "?i2\<lparr>skipToken := False, Stream := \<lparr>pending = [], closing = EOF\<rparr>\<rparr>
      = Default \<lparr>pending = [], closing = EOF\<rparr>"
    unfolding Default_def input_def by simp
  have "Args ?i1 [] = Inr ([''a'', ''b''], (Default \<lparr>pending = [], closing = EOF\<rparr>)\<lparr>skipToken := True\<rparr>)"
    using Args_drops_only_final_empty_token [OF d(1) p(1) f(1) s1 [symmetric]] c r1
    by (simp add: Default_simps)
  moreover
  have "Args ?i2 [] = Inr ([''a'', [], ''b''], Default \<lparr>pending = [], closing = EOF\<rparr>)"
    using Args_drops_only_final_empty_token [OF d(2) p(2) f(2) s2 [symmetric]] c r2
    by (simp add: Default_simps)
  ultimately show ?thesis by (rule conjI)
qed

text \<open>
  C2: where \<open>scanArgs\<close> finds the delimiter at index \<open>i\<close> of its data, the token is the
  data before \<open>i\<close>, byte for byte, except that when the delimiter is the single byte
  \<open>LF\<close> and the byte before the delimiter is a carriage return, that one byte is left
  out.  Where it finds no delimiter at the end of the input, the token is all the data,
  unchanged.  So with a delimiter other than \<open>LF\<close> the tokens that \<open>Args\<close> returns
  are the segments of the content of the stream, unchanged.
\<close>

theorem scanArgs_strips_only_CR_before_LF:
  assumes "ArgsDelim inp \<noteq> []"
  shows "(findDelim (ArgsDelim inp) data 0 = Some i \<longrightarrow>
            scanArgs inp data atEOF =
              Inr ((i + length (ArgsDelim inp),
                    Some (if ArgsDelim inp = [LF] \<and> 0 < i \<and> data ! (i - 1) = CR
                          then take (i - 1) data else take i data),
                    None), inp)) \<and>
         (findDelim (ArgsDelim inp) data 0 = None \<longrightarrow>
            scanArgs inp data True =
              Inr ((0, Some data, Some ErrFinalToken), inp\<lparr>skipToken := (data = [])\<rparr>)) \<and>
         (ArgsDelim inp \<noteq> [LF] \<and> [] \<notin> set (pending (Stream inp)) \<and>
          fits (ArgsDelim inp) (contents (Stream inp)) \<longrightarrow>
            (\<exists>inp'. Args inp [] =
               Inr (butlast (splitOn (ArgsDelim inp) (contents (Stream inp))) @
                    (if last (splitOn (ArgsDelim inp) (contents (Stream inp))) = [] then []
                     else [last (splitOn (ArgsDelim inp) (contents (Stream inp)))]), inp')))"
proof (intro conjI impI)
  assume f: "findDelim (ArgsDelim inp) data 0 = Some i"
  from findDelim_bound [OF f] assms have i: "i < length data"
    by (cases "ArgsDelim inp") auto
  have "chomp (ArgsDelim inp) (take i data) =
      (if ArgsDelim inp = [LF] \<and> 0 < i \<and> data ! (i - 1) = CR then take (i - 1) data else take i data)"
  proof (cases "0 < i")
    case False
    then show ?thesis by (simp add: chomp_def)
  next
    case True
    with i have ne: "take i data \<noteq> []" by auto
    have "last (take i data) = take i data ! (length (take i data) - 1)"
      using ne by (rule last_conv_nth)
    with True i have "last (take i data) = data ! (i - 1)"
      by (simp add: min_def)
    moreover have "butlast (take i data) = take (i - 1) data"
      using i by (simp add: butlast_take)
    ultimately show ?thesis using True ne by (simp add: chomp_def)
  qed
  with scanArgs_match [OF assms f, of atEOF]
  show "scanArgs inp data atEOF =
      Inr ((i + length (ArgsDelim inp),
            Some (if ArgsDelim inp = [LF] \<and> 0 < i \<and> data ! (i - 1) = CR
                  then take (i - 1) data else take i data),
            None), inp)"
    by simp
next
  assume "findDelim (ArgsDelim inp) data 0 = None"
  with assms show "scanArgs inp data True =
      Inr ((0, Some data, Some ErrFinalToken), inp\<lparr>skipToken := (data = [])\<rparr>)"
    by (rule scanArgs_nomatch(2))
next
  assume a: "ArgsDelim inp \<noteq> [LF] \<and> [] \<notin> set (pending (Stream inp)) \<and>
          fits (ArgsDelim inp) (contents (Stream inp))"
  then have "map (chomp (ArgsDelim inp)) (butlast (splitOn (ArgsDelim inp) (contents (Stream inp))))
      = butlast (splitOn (ArgsDelim inp) (contents (Stream inp)))"
    by (simp add: chomp_def map_idI)
  moreover from a have "steady (Stream inp)"
    by (simp add: no_empty_piece_steady_reader)
  ultimately
  show "\<exists>inp'. Args inp [] =
      Inr (butlast (splitOn (ArgsDelim inp) (contents (Stream inp))) @
           (if last (splitOn (ArgsDelim inp) (contents (Stream inp))) = [] then []
            else [last (splitOn (ArgsDelim inp) (contents (Stream inp)))]), inp')"
    using Args_delim [OF assms] a by (simp add: tokens_spec_def Let_def)
qed

theorem scanArgs_strips_only_CR_before_LF_witness:
  "scanArgs (Default \<lparr>pending = [], closing = EOF\<rparr>) (''a'' @ [CR, LF] @ ''b'') False
     = Inr ((3, Some ''a'', None), Default \<lparr>pending = [], closing = EOF\<rparr>) \<and>
   scanArgs ((Default \<lparr>pending = [], closing = EOF\<rparr>)\<lparr>ArgsDelim := '';''\<rparr>) ('' a'' @ [CR] @ '';b'') False
     = Inr ((4, Some ('' a'' @ [CR]), None), (Default \<lparr>pending = [], closing = EOF\<rparr>)\<lparr>ArgsDelim := '';''\<rparr>) \<and>
   scanArgs (Default \<lparr>pending = [], closing = EOF\<rparr>) ('' b '' @ [CR]) True
     = Inr ((0, Some ('' b '' @ [CR]), Some ErrFinalToken), Default \<lparr>pending = [], closing = EOF\<rparr>) \<and>
   (\<exists>inp'. Args ((Default \<lparr>pending = ['' a'', [CR] @ '';b ;''], closing = EOF\<rparr>)\<lparr>ArgsDelim := '';''\<rparr>) []
     = Inr (['' a'' @ [CR], ''b ''], inp')) \<and>
   (\<exists>inp'. Args (Default \<lparr>pending = [''a'' @ [CR, LF] @ ''b''], closing = EOF\<rparr>) []
     = Inr ([''a'', ''b''], inp'))"
proof -
  let ?i1 = "Default \<lparr>pending = [], closing = EOF\<rparr>"
  let ?i2 = "(Default \<lparr>pending = [], closing = EOF\<rparr>)\<lparr>ArgsDelim := '';''\<rparr>"
  let ?i3 = "(Default \<lparr>pending = ['' a'', [CR] @ '';b ;''], closing = EOF\<rparr>)\<lparr>ArgsDelim := '';''\<rparr>"
  let ?i4 = "Default \<lparr>pending = [''a'' @ [CR, LF] @ ''b''], closing = EOF\<rparr>"
  have f1: "findDelim [LF] (''a'' @ [CR, LF] @ ''b'') 0 = Some 2"
    by (simp add: findDelim.simps LF_def CR_def)
  have f2: "findDelim '';'' ('' a'' @ [CR] @ '';b'') 0 = Some 3"
    by (simp add: findDelim.simps CR_def)
  have f5: "findDelim [LF] ('' b '' @ [CR]) 0 = None"
    by (simp add: findDelim.simps LF_def CR_def)
  have s3: "splitOn '';'' ('' a'' @ [CR] @ '';b ;'') = ['' a'' @ [CR], ''b '', []]"
    by (simp add: splitOn.simps CR_def)
  have s4: "splitOn (ArgsDelim ?i4) (contents (Stream ?i4)) = [''a'' @ [CR], ''b'']"
    by (simp add: Default_simps contents_def splitOn.simps LF_def CR_def)
  have f4: "fits (ArgsDelim ?i4) (contents (Stream ?i4))"
    unfolding fits_def s4 by (simp add: maxTokenSize_def Default_simps)
  have t4: "tokens_spec (ArgsDelim ?i4) (contents (Stream ?i4)) = [''a'', ''b'']"
    unfolding tokens_spec_def s4 by (simp add: chomp_def Default_simps)
  have "scanArgs ?i1 (''a'' @ [CR, LF] @ ''b'') False = Inr ((3, Some ''a'', None), ?i1)"
    using scanArgs_strips_only_CR_before_LF [of ?i1 "''a'' @ [CR, LF] @ ''b''" 2 False] f1
    by (simp add: Default_simps)
  moreover
  have "scanArgs ?i2 ('' a'' @ [CR] @ '';b'') False = Inr ((4, Some ('' a'' @ [CR]), None), ?i2)"
    using scanArgs_strips_only_CR_before_LF [of ?i2 "'' a'' @ [CR] @ '';b''" 3 False] f2
    by (simp add: Default_simps LF_def)
  moreover
  have "scanArgs ?i1 ('' b '' @ [CR]) True = Inr ((0, Some ('' b '' @ [CR]), Some ErrFinalToken), ?i1)"
    using scanArgs_strips_only_CR_before_LF [of ?i1 "'' b '' @ [CR]"] f5
    unfolding Default_def input_def by simp
  moreover
  have "\<exists>inp'. Args ?i3 [] = Inr (['' a'' @ [CR], ''b ''], inp')"
    using scanArgs_strips_only_CR_before_LF [of ?i3] s3
    by (simp add: Default_simps LF_def contents_def fits_def maxTokenSize_def)
  moreover
  have "\<exists>inp'. Args ?i4 [] = Inr ([''a'', ''b''], inp')"
    using Args_delim [of ?i4] f4 unfolding t4 by (simp add: Default_simps steady_def)
  ultimately show ?thesis by (intro conjI)
qed

section \<open>\<open>Args\<close> on a stream, with the empty delimiter\<close>

text \<open>
  The well-formed UTF-8 encodings of one code point (the Unicode standard, table 3-7):
  one to four bytes.
\<close>

fun utf8_char :: "bytes \<Rightarrow> bool" where
  "utf8_char [b0] = ((of_char b0 :: nat) < 0x80)"
| "utf8_char [b0, b1] =
     (0xC2 \<le> (of_char b0 :: nat) \<and> (of_char b0 :: nat) \<le> 0xDF \<and> contByte (of_char b1 :: nat))"
| "utf8_char [b0, b1, b2] =
     (((of_char b0 :: nat) = 0xE0 \<and> 0xA0 \<le> (of_char b1 :: nat) \<and> (of_char b1 :: nat) \<le> 0xBF \<or>
       0xE1 \<le> (of_char b0 :: nat) \<and> (of_char b0 :: nat) \<le> 0xEC \<and> contByte (of_char b1 :: nat) \<or>
       (of_char b0 :: nat) = 0xED \<and> 0x80 \<le> (of_char b1 :: nat) \<and> (of_char b1 :: nat) \<le> 0x9F \<or>
       0xEE \<le> (of_char b0 :: nat) \<and> (of_char b0 :: nat) \<le> 0xEF \<and> contByte (of_char b1 :: nat)) \<and>
      contByte (of_char b2 :: nat))"
| "utf8_char [b0, b1, b2, b3] =
     (((of_char b0 :: nat) = 0xF0 \<and> 0x90 \<le> (of_char b1 :: nat) \<and> (of_char b1 :: nat) \<le> 0xBF \<or>
       0xF1 \<le> (of_char b0 :: nat) \<and> (of_char b0 :: nat) \<le> 0xF3 \<and> contByte (of_char b1 :: nat) \<or>
       (of_char b0 :: nat) = 0xF4 \<and> 0x80 \<le> (of_char b1 :: nat) \<and> (of_char b1 :: nat) \<le> 0x8F) \<and>
      contByte (of_char b2 :: nat) \<and> contByte (of_char b3 :: nat))"
| "utf8_char _ = False"

lemma utf8_char_length: "utf8_char c \<Longrightarrow> 0 < length c \<and> length c \<le> 4"
  by (induction c rule: utf8_char.induct) simp_all

text \<open>
  The specification of the tokens with the empty delimiter.  \<open>rune_len s\<close> is the length
  of the well-formed encoding with which \<open>s\<close> begins, and 0 when it begins with none;
  \<open>code_points s\<close> is \<open>s\<close> cut into its encodings, a byte that begins none giving the
  encoding of U+FFFD.
\<close>

definition rune_len :: "bytes \<Rightarrow> nat" where
  "rune_len s =
     (if utf8_char (take 1 s) then 1
      else if utf8_char (take 2 s) then 2
      else if utf8_char (take 3 s) then 3
      else if utf8_char (take 4 s) then 4
      else 0)"

lemma rune_len_pos:
  assumes "0 < rune_len s"
  shows "utf8_char (take (rune_len s) s)" and "rune_len s \<le> length s" and "rune_len s \<le> 4"
proof -
  from assms show u: "utf8_char (take (rune_len s) s)"
    by (auto simp: rune_len_def split: if_splits)
  show "rune_len s \<le> 4" by (simp add: rune_len_def)
  show "rune_len s \<le> length s"
  proof (rule ccontr)
    assume "\<not> rune_len s \<le> length s"
    then have short: "length s < rune_len s" by simp
    then have all: "take k s = s" if "length s \<le> k" for k using that by simp
    from short assms have "utf8_char s" using u all [of "rune_len s"] by simp
    moreover from utf8_char_length [OF this] have "0 < length s" "length s \<le> 4" by simp_all
    ultimately have "utf8_char (take (length s) s)" by simp
    moreover have "length s = 1 \<or> length s = 2 \<or> length s = 3 \<or> length s = 4"
      using \<open>0 < length s\<close> \<open>length s \<le> 4\<close> by arith
    ultimately have "rune_len s \<le> length s"
      by (auto simp: rune_len_def)
    with short show False by simp
  qed
qed

lemma rune_len_0:
  assumes "rune_len s = 0" and "0 < k" and "k \<le> 4"
  shows "\<not> utf8_char (take k s)"
proof -
  from assms(2,3) have "k = 1 \<or> k = 2 \<or> k = 3 \<or> k = 4" by arith
  with assms(1) show ?thesis by (auto simp: rune_len_def split: if_splits)
qed

lemma rune_len_utf8_char: "utf8_char c \<Longrightarrow> rune_len (c @ x) = length c"
  by (induction c rule: utf8_char.induct) (auto simp: rune_len_def contByte_def)

function code_points :: "bytes \<Rightarrow> bytes list" where
  "code_points s =
     (if s = [] then []
      else if rune_len s = 0 then errorRune # code_points (drop 1 s)
      else take (rune_len s) s # code_points (drop (rune_len s) s))"
  by pat_completeness auto
termination
  by (relation "measure length") (auto simp: nonempty_length)

declare code_points.simps [simp del]

lemma code_points_concat: "list_all utf8_char cs \<Longrightarrow> code_points (concat cs) = cs"
proof (induction cs)
  case Nil
  show ?case by (subst code_points.simps) simp
next
  case (Cons c cs)
  then have c: "utf8_char c" and rest: "code_points (concat cs) = cs" by simp_all
  from utf8_char_length [OF c] have ne: "c \<noteq> []" by auto
  from rune_len_utf8_char [OF c] have n: "rune_len (c @ concat cs) = length c" .
  show ?case
    using ne n rest by (subst code_points.simps) simp
qed

text \<open>On data that begins with a well-formed encoding, \<open>ScanRunes\<close> returns that encoding.\<close>

lemma ScanRunes_whole:
  assumes "utf8_char c"
  shows "ScanRunes (c @ y) eof = Inr (length c, Some c, None)"
  using assms
proof (induction c rule: utf8_char.induct)
  case (1 b0)
  then show ?case by (simp add: ScanRunes_def)
next
  case (2 b0 b1)
  then show ?case
    by (simp add: ScanRunes_def DecodeRune_width_def leadByte_def contByte_def)
next
  case (3 b0 b1 b2)
  then have "leadByte (of_char b0) = Some (3, (if of_char b0 = (0xE0 :: nat) then 0xA0 else 0x80),
      (if of_char b0 = (0xED :: nat) then 0x9F else 0xBF))"
    by (auto simp: leadByte_def)
  with 3 show ?case
    by (auto simp: ScanRunes_def DecodeRune_width_def contByte_def)
next
  case (4 b0 b1 b2 b3)
  then have "leadByte (of_char b0) = Some (4, (if of_char b0 = (0xF0 :: nat) then 0x90 else 0x80),
      (if of_char b0 = (0xF4 :: nat) then 0x8F else 0xBF))"
    by (auto simp: leadByte_def)
  with 4 show ?case
    by (auto simp: ScanRunes_def DecodeRune_width_def contByte_def)
qed simp_all

text \<open>
  On a proper beginning of a well-formed encoding, with more data to come, \<open>ScanRunes\<close>
  asks for more.
\<close>

lemma ScanRunes_part:
  assumes "utf8_char c" and "0 < k" and "k < length c"
  shows "ScanRunes (take k c) False = Inr (0, None, None)"
  using assms
proof (induction c rule: utf8_char.induct)
  case (2 b0 b1)
  then have "k = 1" by simp
  with 2 show ?case
    by (simp add: ScanRunes_def DecodeRune_width_def FullRune_def leadByte_def)
next
  case (3 b0 b1 b2)
  then have lead: "leadByte (of_char b0) = Some (3, (if of_char b0 = (0xE0 :: nat) then 0xA0 else 0x80),
      (if of_char b0 = (0xED :: nat) then 0x9F else 0xBF))"
    by (auto simp: leadByte_def)
  from 3 have "k = 1 \<or> k = 2" by auto
  then show ?case
  proof
    assume "k = 1"
    with 3 lead show ?thesis
      by (auto simp: ScanRunes_def DecodeRune_width_def FullRune_def)
  next
    assume "k = 2"
    with 3 lead show ?thesis
      by (auto simp: ScanRunes_def DecodeRune_width_def FullRune_def contByte_def numeral_2_eq_2)
  qed
next
  case (4 b0 b1 b2 b3)
  then have lead: "leadByte (of_char b0) = Some (4, (if of_char b0 = (0xF0 :: nat) then 0x90 else 0x80),
      (if of_char b0 = (0xF4 :: nat) then 0x8F else 0xBF))"
    by (auto simp: leadByte_def)
  from 4 have "k = 1 \<or> k = 2 \<or> k = 3" by auto
  then show ?case
  proof (elim disjE)
    assume "k = 1"
    with 4 lead show ?thesis
      by (auto simp: ScanRunes_def DecodeRune_width_def FullRune_def)
  next
    assume "k = 2"
    with 4 lead show ?thesis
      by (auto simp: ScanRunes_def DecodeRune_width_def FullRune_def contByte_def numeral_2_eq_2)
  next
    assume "k = 3"
    with 4 lead show ?thesis
      by (auto simp: ScanRunes_def DecodeRune_width_def FullRune_def contByte_def numeral_3_eq_3)
  qed
qed simp_all


lemma scanArgs_runes:
  "ArgsDelim inp = [] \<Longrightarrow> ScanRunes data eof = Inr res \<Longrightarrow> scanArgs inp data eof = Inr (res, inp)"
  by (simp add: scanArgs_def)

lemma Scan_rune_token:
  assumes "ready s" and "ArgsDelim inp = []" and "rest s = c @ x" and "utf8_char c"
  shows "\<exists>s'. Scan scanArgs inp s = Inr (True, inp, s') \<and> ready s' \<and> rest s' = x \<and>
           closing (r s') = closing (r s) \<and> Text s' = c"
proof -
  let ?n = "length c"
  from utf8_char_length [OF assms(4)] have n: "0 < ?n" "?n \<le> 4" by simp_all
  have "\<exists>sk. ready sk \<and> rest sk = rest s \<and> closing (r sk) = closing (r s) \<and>
          (window sk \<noteq> [] \<or> err sk \<noteq> None) \<and>
          (\<lambda>k eof. ?n \<le> k) (length (window sk)) (err sk \<noteq> None) \<and>
          scanLoop scanArgs inp sk = scanLoop scanArgs inp s"
  proof (rule scanLoop_forward [OF assms(1)])
    fix k eof
    assume k: "k \<le> length (rest s)" "eof \<Longrightarrow> k = length (rest s)" "k = 0 \<Longrightarrow> eof"
    show "?n \<le> k \<or>
          (\<not> eof \<and> k < maxTokenSize \<and> scanArgs inp (take k (rest s)) False = Inr ((0, None, None), inp))"
    proof (cases "?n \<le> k")
      case False
      then have short: "k < ?n" by simp
      with k(2) assms(3) have ne: "\<not> eof" by auto
      with k(3) have pos: "0 < k" by auto
      from short n have "k < maxTokenSize" by (simp add: maxTokenSize_def)
      moreover from short have "take k (rest s) = take k c" by (simp add: assms(3))
      then have "scanArgs inp (take k (rest s)) False = Inr ((0, None, None), inp)"
        using scanArgs_runes [OF assms(2) ScanRunes_part [OF assms(4) pos short]] by simp
      ultimately show ?thesis using ne by simp
    qed simp
  qed
  then obtain sk where sk: "ready sk" "rest sk = rest s" "closing (r sk) = closing (r s)"
    "window sk \<noteq> [] \<or> err sk \<noteq> None" "?n \<le> length (window sk)"
    "scanLoop scanArgs inp sk = scanLoop scanArgs inp s"
    by blast
  have "window sk = take (length (window sk)) (c @ x)"
    using window_take_rest [of sk] sk(2) assms(3) by simp
  with sk(5) have w: "window sk = c @ take (length (window sk) - ?n) x" by simp
  have sp: "scanArgs inp (window sk) (err sk \<noteq> None) = Inr ((?n, Some c, None), inp)"
    by (subst w) (rule scanArgs_runes [OF assms(2) ScanRunes_whole [OF assms(4)]])
  define s' where "s' = sk\<lparr>start := start sk + ?n, window := drop ?n (window sk),
                            token := Some c, empties := 0\<rparr>"
  have "tryToken scanArgs inp sk = Inr (Return True inp s')"
    using sp sk(5) n(1) by (simp add: tryToken_def s'_def)
  then have "scanLoop scanArgs inp sk = Inr (True, inp, s')"
    using sk(4) by (intro scanLoop_Return) simp_all
  with sk(6) have "Scan scanArgs inp s = Inr (True, inp, s')"
    using assms(1) by (simp add: Scan_def ready_def)
  moreover have "ready s'"
    using sk(1) sk(5) by (simp add: ready_def s'_def)
  moreover have "rest s' = x"
  proof -
    have "rest s' = drop ?n (window sk) @ contents (r sk)"
      by (simp add: rest_def s'_def)
    also have "\<dots> = drop ?n (rest sk)"
      using sk(5) by (simp add: rest_def)
    finally show ?thesis by (simp add: sk(2) assms(3))
  qed
  moreover have "closing (r s') = closing (r s)"
    using sk(3) by (simp add: s'_def)
  moreover have "Text s' = c"
    by (simp add: Text_def s'_def)
  ultimately show ?thesis by blast
qed

lemma Scan_rune_end:
  assumes "ready s" and "ArgsDelim inp = []" and "rest s = []"
  shows "\<exists>s'. Scan scanArgs inp s = Inr (False, inp, s') \<and> pending (r s') = [] \<and>
           closing (r s') = closing (r s)"
proof -
  have "\<exists>sk. ready sk \<and> rest sk = rest s \<and> closing (r sk) = closing (r s) \<and>
          (window sk \<noteq> [] \<or> err sk \<noteq> None) \<and>
          (\<lambda>k eof. eof) (length (window sk)) (err sk \<noteq> None) \<and>
          scanLoop scanArgs inp sk = scanLoop scanArgs inp s"
  proof (rule scanLoop_forward [OF assms(1)])
    fix k :: nat and eof
    assume "k \<le> length (rest s)" "k = 0 \<Longrightarrow> eof"
    with assms(3) show "eof \<or>
          (\<not> eof \<and> k < maxTokenSize \<and> scanArgs inp (take k (rest s)) False = Inr ((0, None, None), inp))"
      by simp
  qed
  then obtain sk where sk: "ready sk" "rest sk = rest s" "closing (r sk) = closing (r s)"
    "err sk \<noteq> None" "scanLoop scanArgs inp sk = scanLoop scanArgs inp s"
    by blast
  from sk(2) assms(3) have w: "window sk = []" by (simp add: rest_def)
  from sk(1) sk(4) have p: "pending (r sk) = []" by (auto simp: ready_def)
  define s1 where "s1 = sk\<lparr>start := start sk + 0, window := drop 0 (window sk), token := None\<rparr>"
  have "scanArgs inp (window sk) (err sk \<noteq> None) = Inr ((0, None, None), inp)"
    using sk(4) w assms(2) by (simp add: scanArgs_def ScanRunes_def)
  then have t: "tryToken scanArgs inp sk = Inr (Continue inp s1)"
    by (simp add: tryToken_def s1_def)
  have "scanLoop scanArgs inp sk = Inr (False, inp, s1\<lparr>start := 0, window := []\<rparr>)"
    using sk(4) t by (subst scanLoop.simps) (simp add: s1_def)
  with sk(5) have "Scan scanArgs inp s = Inr (False, inp, s1\<lparr>start := 0, window := []\<rparr>)"
    using assms(1) by (simp add: Scan_def ready_def)
  moreover have "pending (r (s1\<lparr>start := 0, window := []\<rparr>)) = []"
    "closing (r (s1\<lparr>start := 0, window := []\<rparr>)) = closing (r s)"
    using p sk(3) by (simp_all add: s1_def)
  ultimately show ?thesis by blast
qed

lemma take_nth_2: "2 \<le> length p \<Longrightarrow> take 2 p = [p ! 0, p ! 1]"
  by (cases p; cases "tl p") auto

lemma take_nth_3: "3 \<le> length p \<Longrightarrow> take 3 p = [p ! 0, p ! 1, p ! 2]"
  by (cases p; cases "tl p"; cases "tl (tl p)") auto

lemma take_nth_4: "4 \<le> length p \<Longrightarrow> take 4 p = [p ! 0, p ! 1, p ! 2, p ! 3]"
  by (cases p; cases "tl p"; cases "tl (tl p)"; cases "tl (tl (tl p))") auto

lemma DecodeRune_width_utf8:
  assumes "1 < DecodeRune_width p"
  shows "utf8_char (take (DecodeRune_width p) p)"
proof (cases "leadByte (of_char (p ! 0))")
  case None
  with assms show ?thesis by (simp add: DecodeRune_width_def Let_def split: if_splits)
next
  case (Some x)
  obtain sz lo hi where x: "x = (sz, lo, hi)" by (cases x)
  from Some x leadByte_size have sz: "sz = 2 \<or> sz = 3 \<or> sz = 4" by blast
  from assms Some x have n: "sz \<le> length p"
    and b1: "lo \<le> of_char (p ! 1)" "of_char (p ! 1) \<le> hi"
    by (auto simp: DecodeRune_width_def Let_def split: if_splits)
  from sz show ?thesis
  proof (elim disjE)
    assume s2: "sz = 2"
    with assms Some x have w: "DecodeRune_width p = 2"
      by (auto simp: DecodeRune_width_def Let_def split: if_splits)
    from Some x s2 b1 have "utf8_char [p ! 0, p ! 1]"
      by (auto simp: leadByte_def contByte_def split: if_splits)
    with n s2 show ?thesis by (simp add: w take_nth_2)
  next
    assume s3: "sz = 3"
    with assms Some x have w: "DecodeRune_width p = 3" and b2: "contByte (of_char (p ! 2))"
      by (auto simp: DecodeRune_width_def Let_def split: if_splits)
    from Some x s3 b1 b2 have "utf8_char [p ! 0, p ! 1, p ! 2]"
      by (auto simp: leadByte_def contByte_def split: if_splits)
    with n s3 show ?thesis by (simp add: w take_nth_3)
  next
    assume s4: "sz = 4"
    with assms Some x have w: "DecodeRune_width p = 4" and b2: "contByte (of_char (p ! 2))"
      and b3: "contByte (of_char (p ! 3))"
      by (auto simp: DecodeRune_width_def Let_def split: if_splits)
    from Some x s4 b1 b2 b3 have "utf8_char [p ! 0, p ! 1, p ! 2, p ! 3]"
      by (auto simp: leadByte_def contByte_def split: if_splits)
    with n s4 show ?thesis by (simp add: w take_nth_4)
  qed
qed

lemma DecodeRune_width_le4: "DecodeRune_width p \<le> 4"
proof (cases "leadByte (of_char (p ! 0))")
  case None
  then show ?thesis by (simp add: DecodeRune_width_def Let_def)
next
  case (Some x)
  obtain sz lo hi where x: "x = (sz, lo, hi)" by (cases x)
  with Some show ?thesis
    by (auto simp: DecodeRune_width_def Let_def)
qed

lemma FullRune_long: "4 \<le> length p \<Longrightarrow> FullRune p"
proof (cases "leadByte (of_char (p ! 0))")
  case None
  assume "4 \<le> length p"
  then have "p \<noteq> []" by auto
  with None show ?thesis by (simp add: FullRune_def Let_def)
next
  case (Some x)
  assume l: "4 \<le> length p"
  obtain sz lo hi where x: "x = (sz, lo, hi)" by (cases x)
  with Some leadByte_size have "sz = 2 \<or> sz = 3 \<or> sz = 4" by blast
  with Some x l show ?thesis
    by (auto simp: FullRune_def Let_def)
qed

text \<open>
  On data that begins with a byte that begins no well-formed encoding, \<open>ScanRunes\<close> returns
  the encoding of U+FFFD for that byte, once it has seen enough of the data to know.
\<close>

lemma ScanRunes_error:
  assumes "rune_len s = 0" and "0 < k" and "k \<le> length s"
  shows "ScanRunes (take k s) eof =
           (if \<not> eof \<and> \<not> FullRune (take k s) then Inr (0, None, None)
            else Inr (1, Some errorRune, None))"
proof -
  let ?p = "take k s"
  from assms(2,3) have len: "length ?p = k" "?p \<noteq> []" by auto
  from assms(2,3) have p0: "?p ! 0 = s ! 0" by simp
  from assms(2,3) have "take 1 s = [s ! 0]"
    by (cases s) auto
  with rune_len_0 [OF assms(1), of 1] have hi: "\<not> of_char (s ! 0) < (0x80 :: nat)" by simp
  have w: "\<not> 1 < DecodeRune_width ?p"
  proof
    assume a: "1 < DecodeRune_width ?p"
    from DecodeRune_width_le [of ?p] len have "DecodeRune_width ?p \<le> k" by simp
    then have "take (DecodeRune_width ?p) ?p = take (DecodeRune_width ?p) s"
      by (simp add: min_def)
    with DecodeRune_width_utf8 [OF a] have "utf8_char (take (DecodeRune_width ?p) s)" by simp
    with rune_len_0 [OF assms(1), of "DecodeRune_width ?p"] a DecodeRune_width_le4 [of ?p]
    show False by simp
  qed
  from len hi p0 w show ?thesis
    by (simp add: ScanRunes_def Let_def)
qed

lemma Scan_rune_error:
  assumes "ready s" and "ArgsDelim inp = []" and "rest s \<noteq> []" and "rune_len (rest s) = 0"
  shows "\<exists>s'. Scan scanArgs inp s = Inr (True, inp, s') \<and> ready s' \<and> rest s' = drop 1 (rest s) \<and>
           closing (r s') = closing (r s) \<and> Text s' = errorRune"
proof -
  let ?c = "rest s"
  have "\<exists>sk. ready sk \<and> rest sk = ?c \<and> closing (r sk) = closing (r s) \<and>
          (window sk \<noteq> [] \<or> err sk \<noteq> None) \<and>
          (\<lambda>k eof. 0 < k \<and> (eof \<or> FullRune (take k ?c))) (length (window sk)) (err sk \<noteq> None) \<and>
          scanLoop scanArgs inp sk = scanLoop scanArgs inp s"
  proof (rule scanLoop_forward [OF assms(1)])
    fix k eof
    assume k: "k \<le> length ?c" "eof \<Longrightarrow> k = length ?c" "k = 0 \<Longrightarrow> eof"
    from k(2,3) assms(3) have pos: "0 < k" by (cases k) auto
    show "(0 < k \<and> (eof \<or> FullRune (take k ?c))) \<or>
          (\<not> eof \<and> k < maxTokenSize \<and> scanArgs inp (take k ?c) False = Inr ((0, None, None), inp))"
    proof (cases "eof \<or> FullRune (take k ?c)")
      case True
      with pos show ?thesis by simp
    next
      case False
      then have ne: "\<not> eof" "\<not> FullRune (take k ?c)" by simp_all
      have "k < 4"
      proof (rule ccontr)
        assume "\<not> k < 4"
        with k(1) have "4 \<le> length (take k ?c)" by simp
        from FullRune_long [OF this] ne(2) show False by simp
      qed
      then have "k < maxTokenSize" by (simp add: maxTokenSize_def)
      moreover have "ScanRunes (take k ?c) False = Inr (0, None, None)"
        using ScanRunes_error [OF assms(4) pos k(1), of False] ne(2) by simp
      then have "scanArgs inp (take k ?c) False = Inr ((0, None, None), inp)"
        by (rule scanArgs_runes [OF assms(2)])
      ultimately show ?thesis using ne(1) by simp
    qed
  qed
  then obtain sk where sk: "ready sk" "rest sk = ?c" "closing (r sk) = closing (r s)"
    "0 < length (window sk)" "err sk \<noteq> None \<or> FullRune (take (length (window sk)) ?c)"
    "scanLoop scanArgs inp sk = scanLoop scanArgs inp s"
    by blast
  have w: "window sk = take (length (window sk)) ?c"
    using window_take_rest [of sk] sk(2) by simp
  have "length (rest sk) = length (window sk) + length (contents (r sk))"
    by (simp add: rest_def)
  then have le: "length (window sk) \<le> length ?c"
    by (simp only: sk(2))
  have "ScanRunes (take (length (window sk)) ?c) (err sk \<noteq> None) = Inr (1, Some errorRune, None)"
    using ScanRunes_error [OF assms(4) sk(4) le, of "err sk \<noteq> None"] sk(5) by auto
  then have "ScanRunes (window sk) (err sk \<noteq> None) = Inr (1, Some errorRune, None)"
    using w by simp
  then have sp: "scanArgs inp (window sk) (err sk \<noteq> None) = Inr ((1, Some errorRune, None), inp)"
    by (rule scanArgs_runes [OF assms(2)])
  define s' where "s' = sk\<lparr>start := start sk + 1, window := drop 1 (window sk),
                            token := Some errorRune, empties := 0\<rparr>"
  have one: "\<not> 1 > length (window sk)" using sk(4) by simp
  have "tryToken scanArgs inp sk = Inr (Return True inp s')"
    using sp one by (simp add: tryToken_def s'_def)
  then have "scanLoop scanArgs inp sk = Inr (True, inp, s')"
    using sk(4) by (intro scanLoop_Return) simp_all
  with sk(6) have "Scan scanArgs inp s = Inr (True, inp, s')"
    using assms(1) by (simp add: Scan_def ready_def)
  moreover have "ready s'"
  proof -
    from sk(4) obtain b bs where "window sk = b # bs" by (cases "window sk") auto
    with sk(1) show ?thesis by (simp add: ready_def s'_def)
  qed
  moreover have "rest s' = drop 1 ?c"
  proof -
    have "rest s' = drop 1 (window sk) @ contents (r sk)"
      by (simp add: rest_def s'_def)
    also have "\<dots> = drop 1 (rest sk)"
      using sk(4) by (cases "window sk") (simp_all add: rest_def)
    finally show ?thesis by (simp only: sk(2))
  qed
  moreover have "closing (r s') = closing (r s)"
    using sk(3) by (simp add: s'_def)
  moreover have "Text s' = errorRune"
    by (simp add: Text_def s'_def)
  ultimately show ?thesis by blast
qed

lemma scanTokens_code_points:
  assumes "ArgsDelim inp = []" and "\<not> skipToken inp"
  shows "ready s \<Longrightarrow>
         \<exists>s'. scanTokens inp s a = Inr (a @ code_points (rest s), inp, s') \<and> pending (r s') = [] \<and>
           closing (r s') = closing (r s)"
proof (induction "length (rest s)" arbitrary: s a rule: less_induct)
  case less
  let ?c = "rest s"
  show ?case
  proof (cases "?c = []")
    case True
    from Scan_rune_end [OF less.prems assms(1) True]
    obtain s' where "Scan scanArgs inp s = Inr (False, inp, s')" "pending (r s') = []"
      "closing (r s') = closing (r s)"
      by auto
    moreover have "code_points ?c = []" using True by (subst code_points.simps) simp
    ultimately show ?thesis using scanTokens_False [of inp s inp s' a] by simp
  next
    case False
    define n where "n = (if rune_len ?c = 0 then 1 else rune_len ?c)"
    define t where "t = (if rune_len ?c = 0 then errorRune else take (rune_len ?c) ?c)"
    have cp: "code_points ?c = t # code_points (drop n ?c)"
      using False by (subst code_points.simps) (simp add: n_def t_def)
    have "\<exists>s1. Scan scanArgs inp s = Inr (True, inp, s1) \<and> ready s1 \<and> rest s1 = drop n ?c \<and>
        closing (r s1) = closing (r s) \<and> Text s1 = t"
    proof (cases "rune_len ?c = 0")
      case True
      with Scan_rune_error [OF less.prems assms(1) False True] show ?thesis
        by (simp add: n_def t_def)
    next
      case nz: False
      then have pos: "0 < rune_len ?c" by simp
      have split: "?c = take (rune_len ?c) ?c @ drop (rune_len ?c) ?c" by simp
      from Scan_rune_token [OF less.prems assms(1) split rune_len_pos(1) [OF pos]] nz
      show ?thesis by (simp add: n_def t_def)
    qed
    then obtain s1 where s1: "Scan scanArgs inp s = Inr (True, inp, s1)" "ready s1"
      "rest s1 = drop n ?c" "closing (r s1) = closing (r s)" "Text s1 = t"
      by blast
    have "0 < n" by (simp add: n_def)
    with False have "length (rest s1) < length ?c" by (simp add: s1(3))
    from less.hyps [OF this s1(2), of "a @ [t]"] obtain s' where
      "scanTokens inp s1 (a @ [t]) = Inr ((a @ [t]) @ code_points (rest s1), inp, s')"
      "pending (r s') = []" "closing (r s') = closing (r s1)"
      by blast
    moreover have "scanTokens inp s a = scanTokens inp s1 (a @ [t])"
      using scanTokens_True [OF s1(1)] assms(2) s1(5) by simp
    ultimately show ?thesis using s1(3,4) cp by simp
  qed
qed

lemma Args_code_points:
  assumes "ArgsDelim inp = []" and "steady (Stream inp)"
  shows "Args inp [] =
           Inr (code_points (contents (Stream inp)),
                inp\<lparr>skipToken := False,
                    Stream := \<lparr>pending = [], closing = closing (Stream inp)\<rparr>\<rparr>)"
proof -
  let ?inp = "inp\<lparr>skipToken := False\<rparr>" and ?s = "NewScanner (Stream inp)"
  have rd: "ready ?s" using assms(2) by (rule ready_NewScanner)
  have rs: "rest ?s = contents (Stream inp)" by (simp add: rest_NewScanner)
  have cl: "r ?s = Stream inp" by (simp add: NewScanner_def)
  have d: "ArgsDelim ?inp = []" "\<not> skipToken ?inp"
    using assms(1) by simp_all
  from scanTokens_code_points [OF d rd, of "[]"]
  obtain s' where s': "scanTokens ?inp ?s [] = Inr ([] @ code_points (contents (Stream inp)), ?inp, s')"
    "pending (r s') = []" "closing (r s') = closing (Stream inp)"
    unfolding cl rs by blast
  from s'(2,3) have "r s' = \<lparr>pending = [], closing = closing (Stream inp)\<rparr>"
    by (cases "r s'") simp
  with s'(1) show ?thesis
    by (simp add: Args_def Let_def)
qed


text \<open>
  C3, as stated, fails on a stream that delivers nothing too often: after 101 reads in a
  row that deliver nothing and report no error the scanner gives up
  (\<open>io.ErrNoProgress\<close>), and of \<open>abc\<close>, which the stream would deliver next, \<open>Args\<close>
  returns no token and leaves the bytes unread.
\<close>

theorem Args_empty_delimiter_gives_up_without_progress:
  "Args ((Default \<lparr>pending = replicate 101 [] @ [''abc''], closing = EOF\<rparr>)\<lparr>ArgsDelim := []\<rparr>) []
     = Inr ([], (Default \<lparr>pending = [''abc''], closing = EOF\<rparr>)\<lparr>ArgsDelim := []\<rparr>)"
proof -
  let ?j = "(Default \<lparr>pending = replicate 101 [] @ [''abc''], closing = EOF\<rparr>)\<lparr>ArgsDelim := []\<rparr>"
  have p: "pending (Stream ?j) = replicate (Suc maxConsecutiveEmptyReads) [] @ [''abc'']"
    by (simp add: Default_simps maxConsecutiveEmptyReads_def)
  have "?j\<lparr>skipToken := (ArgsDelim ?j \<noteq> []), Stream := (Stream ?j)\<lparr>pending := [''abc'']\<rparr>\<rparr>
      = (Default \<lparr>pending = [''abc''], closing = EOF\<rparr>)\<lparr>ArgsDelim := []\<rparr>"
    unfolding Default_def input_def by simp
  with Args_no_progress [OF p] show ?thesis by (simp only:)
qed

text \<open>
  C3, amended: with the empty \<open>ArgsDelim\<close>, \<open>Args\<close> without arguments, on a stream that
  is steady, returns the content of the fallback stream split into its code points,
  whatever the bytes are and whatever the pieces in which the stream delivers them: one
  token for each well-formed UTF-8 encoding, of one to four bytes, and the encoding of
  U+FFFD for each byte that begins none.  So where the content is a concatenation of
  well-formed encodings, the tokens are these encodings, one for each code point and not
  one for each byte.  The stream is left used up.
\<close>

theorem Args_empty_delimiter_splits_code_points:
  assumes "ArgsDelim inp = []" and "steady (Stream inp)"
  shows "Args inp [] =
           Inr (code_points (contents (Stream inp)),
                inp\<lparr>skipToken := False,
                    Stream := \<lparr>pending = [], closing = closing (Stream inp)\<rparr>\<rparr>) \<and>
         (list_all utf8_char cs \<and> contents (Stream inp) = concat cs \<longrightarrow>
            Args inp [] =
              Inr (cs, inp\<lparr>skipToken := False,
                          Stream := \<lparr>pending = [], closing = closing (Stream inp)\<rparr>\<rparr>))"
proof (intro conjI impI)
  show a: "Args inp [] =
      Inr (code_points (contents (Stream inp)),
           inp\<lparr>skipToken := False, Stream := \<lparr>pending = [], closing = closing (Stream inp)\<rparr>\<rparr>)"
    using assms by (rule Args_code_points)
  assume "list_all utf8_char cs \<and> contents (Stream inp) = concat cs"
  then have "code_points (contents (Stream inp)) = cs"
    by (simp add: code_points_concat)
  with a show "Args inp [] =
      Inr (cs, inp\<lparr>skipToken := False, Stream := \<lparr>pending = [], closing = closing (Stream inp)\<rparr>\<rparr>)"
    by simp
qed

theorem Args_empty_delimiter_splits_code_points_witness:
  "Args \<lparr>Stream = \<lparr>pending = [''abc''], closing = EOF\<rparr>, Literal = False, ArgsDelim = [],
         ReadDelim = '' '', skipToken = False\<rparr> []
     = Inr ([''a'', ''b'', ''c''],
            \<lparr>Stream = \<lparr>pending = [], closing = EOF\<rparr>, Literal = False, ArgsDelim = [],
             ReadDelim = '' '', skipToken = False\<rparr>) \<and>
   Args \<lparr>Stream = \<lparr>pending = [[CHR 0xC3], [], [CHR 0xA9, CHR 0xE2, CHR 0x82], [CHR 0xAC]], closing = EOF\<rparr>,
         Literal = False, ArgsDelim = [], ReadDelim = '' '', skipToken = False\<rparr> []
     = Inr ([[CHR 0xC3, CHR 0xA9], [CHR 0xE2, CHR 0x82, CHR 0xAC]],
            \<lparr>Stream = \<lparr>pending = [], closing = EOF\<rparr>, Literal = False, ArgsDelim = [],
             ReadDelim = '' '', skipToken = False\<rparr>) \<and>
   Args \<lparr>Stream = \<lparr>pending = [[CHR ''a'', CHR 0xFF, CHR ''b'', CHR 0xE2, CHR 0x82]], closing = EOF\<rparr>,
         Literal = False, ArgsDelim = [], ReadDelim = '' '', skipToken = False\<rparr> []
     = Inr ([''a'', errorRune, ''b'', errorRune, errorRune],
            \<lparr>Stream = \<lparr>pending = [], closing = EOF\<rparr>, Literal = False, ArgsDelim = [],
             ReadDelim = '' '', skipToken = False\<rparr>)"
proof -
  let ?i1 = "\<lparr>Stream = \<lparr>pending = [''abc''], closing = EOF\<rparr>, Literal = False, ArgsDelim = [],
         ReadDelim = '' '', skipToken = False\<rparr>"
  let ?i2 = "\<lparr>Stream = \<lparr>pending = [[CHR 0xC3], [], [CHR 0xA9, CHR 0xE2, CHR 0x82], [CHR 0xAC]], closing = EOF\<rparr>,
         Literal = False, ArgsDelim = [], ReadDelim = '' '', skipToken = False\<rparr>"
  let ?i3 = "\<lparr>Stream = \<lparr>pending = [[CHR ''a'', CHR 0xFF, CHR ''b'', CHR 0xE2, CHR 0x82]], closing = EOF\<rparr>,
         Literal = False, ArgsDelim = [], ReadDelim = '' '', skipToken = False\<rparr>"
  have st: "steady (Stream ?i1)" "steady (Stream ?i2)" "steady (Stream ?i3)"
    by (simp_all add: steady_def maxConsecutiveEmptyReads_def)
  have d: "ArgsDelim ?i1 = []" "ArgsDelim ?i2 = []" "ArgsDelim ?i3 = []"
    by simp_all
  have c1: "list_all utf8_char [''a'', ''b'', ''c''] \<and> contents (Stream ?i1) = concat [''a'', ''b'', ''c'']"
    by (simp add: contents_def)
  have c2: "list_all utf8_char [[CHR 0xC3, CHR 0xA9], [CHR 0xE2, CHR 0x82, CHR 0xAC]] \<and>
      contents (Stream ?i2) = concat [[CHR 0xC3, CHR 0xA9], [CHR 0xE2, CHR 0x82, CHR 0xAC]]"
    by (simp add: contents_def contByte_def)
  have c3: "code_points (contents (Stream ?i3)) = [''a'', errorRune, ''b'', errorRune, errorRune]"
    by (simp add: contents_def code_points.simps rune_len_def contByte_def)
  have "Args ?i1 [] = Inr ([''a'', ''b'', ''c''],
      ?i1\<lparr>skipToken := False, Stream := \<lparr>pending = [], closing = closing (Stream ?i1)\<rparr>\<rparr>)"
    by (rule Args_empty_delimiter_splits_code_points
          [OF d(1) st(1), THEN conjunct2, rule_format, OF c1])
  moreover
  have "Args ?i2 [] = Inr ([[CHR 0xC3, CHR 0xA9], [CHR 0xE2, CHR 0x82, CHR 0xAC]],
      ?i2\<lparr>skipToken := False, Stream := \<lparr>pending = [], closing = closing (Stream ?i2)\<rparr>\<rparr>)"
    by (rule Args_empty_delimiter_splits_code_points
          [OF d(2) st(2), THEN conjunct2, rule_format, OF c2])
  moreover
  have "Args ?i3 [] = Inr ([''a'', errorRune, ''b'', errorRune, errorRune],
      ?i3\<lparr>skipToken := False, Stream := \<lparr>pending = [], closing = closing (Stream ?i3)\<rparr>\<rparr>)"
    using Args_empty_delimiter_splits_code_points [OF d(3) st(3), THEN conjunct1]
    by (simp only: c3)
  ultimately show ?thesis by simp
qed

text \<open>
  C8, as stated, fails where the scanner of the first call gives up before the end of the
  stream: the first call leaves the rest of the stream unread, and the second call reads
  it and returns tokens.  After 65536 bytes \<open>x\<close> without a delimiter (\<open>ErrTooLong\<close>)
  the first call returns no token and the second returns the tokens of \<open>LF b\<close>; after
  101 reads in a row that deliver nothing (\<open>io.ErrNoProgress\<close>) the first call returns
  no token and the second returns \<open>a\<close>.
\<close>

theorem Args_second_call_returns_tokens:
  "Args (Default \<lparr>pending = [replicate 65536 (CHR ''x'') @ [LF] @ ''b''], closing = EOF\<rparr>) []
     = Inr ([], Default \<lparr>pending = [[LF] @ ''b''], closing = EOF\<rparr>) \<and>
   Args (Default \<lparr>pending = [[LF] @ ''b''], closing = EOF\<rparr>) []
     = Inr ([[], ''b''], Default \<lparr>pending = [], closing = EOF\<rparr>) \<and>
   Args (Default \<lparr>pending = replicate 101 [] @ [''a'' @ [LF]], closing = EOF\<rparr>) []
     = Inr ([], (Default \<lparr>pending = [''a'' @ [LF]], closing = EOF\<rparr>)\<lparr>skipToken := True\<rparr>) \<and>
   Args ((Default \<lparr>pending = [''a'' @ [LF]], closing = EOF\<rparr>)\<lparr>skipToken := True\<rparr>) []
     = Inr ([''a''], (Default \<lparr>pending = [], closing = EOF\<rparr>)\<lparr>skipToken := True\<rparr>)"
proof -
  let ?c = "replicate 65536 (CHR ''x'') @ [LF] @ ''b''"
  let ?i = "Default \<lparr>pending = [?c], closing = EOF\<rparr>"
  let ?i' = "Default \<lparr>pending = [[LF] @ ''b''], closing = EOF\<rparr>"
  let ?j = "Default \<lparr>pending = replicate 101 [] @ [''a'' @ [LF]], closing = EOF\<rparr>"
  let ?j' = "(Default \<lparr>pending = [''a'' @ [LF]], closing = EOF\<rparr>)\<lparr>skipToken := True\<rparr>"
  have x: "CHR ''x'' \<notin> set [LF]" by (simp add: LF_def)
  have "findDelim [LF] (replicate 65536 (CHR ''x'')) 0 = None"
    by (rule findDelim_replicate_None [OF _ x]) simp
  then have f: "findDelim (ArgsDelim ?i) (take maxTokenSize ?c) 0 = None"
    by (simp add: Default_simps maxTokenSize_def)
  have l: "maxTokenSize < length ?c" by (simp add: maxTokenSize_def)
  have d: "drop maxTokenSize ?c = [LF] @ ''b''" by (simp add: maxTokenSize_def)
  have "Args ?i [] = Inr ([], ?i\<lparr>skipToken := False, Stream := (Stream ?i)\<lparr>pending := [drop maxTokenSize ?c]\<rparr>\<rparr>)"
    by (rule Args_too_long_single [OF _ _ f l]) (simp_all add: Default_simps)
  moreover have "?i\<lparr>skipToken := False, Stream := (Stream ?i)\<lparr>pending := [drop maxTokenSize ?c]\<rparr>\<rparr> = ?i'"
    unfolding d Default_def input_def by simp
  ultimately have 1: "Args ?i [] = Inr ([], ?i')" by (simp only:)
  have s2: "splitOn (ArgsDelim ?i') (contents (Stream ?i')) = [[], ''b'']"
    by (simp add: Default_simps contents_def splitOn.simps findDelim.simps LF_def)
  have f2: "fits (ArgsDelim ?i') (contents (Stream ?i'))"
    unfolding fits_def s2 by (simp add: maxTokenSize_def Default_simps)
  have t2: "tokens_spec (ArgsDelim ?i') (contents (Stream ?i')) = [[], ''b'']"
    unfolding tokens_spec_def s2 by (simp add: chomp_def)
  have r2: "?i'\<lparr>skipToken := False, Stream := \<lparr>pending = [], closing = EOF\<rparr>\<rparr>
      = Default \<lparr>pending = [], closing = EOF\<rparr>"
    unfolding Default_def input_def by simp
  have 2: "Args ?i' [] = Inr ([[], ''b''], Default \<lparr>pending = [], closing = EOF\<rparr>)"
    using Args_delim [of ?i'] f2 r2 unfolding t2 s2
    by (simp add: Default_simps steady_def)
  have p: "pending (Stream ?j) = replicate (Suc maxConsecutiveEmptyReads) [] @ [''a'' @ [LF]]"
    by (simp add: Default_simps maxConsecutiveEmptyReads_def)
  have "?j\<lparr>skipToken := (ArgsDelim ?j \<noteq> []), Stream := (Stream ?j)\<lparr>pending := [''a'' @ [LF]]\<rparr>\<rparr> = ?j'"
    unfolding Default_def input_def by simp
  with Args_no_progress [OF p] have 3: "Args ?j [] = Inr ([], ?j')" by (simp only:)
  have s4: "splitOn (ArgsDelim ?j') (contents (Stream ?j')) = [''a'', []]"
    by (simp add: Default_simps contents_def splitOn.simps findDelim.simps LF_def)
  have f4: "fits (ArgsDelim ?j') (contents (Stream ?j'))"
    unfolding fits_def s4 by (simp add: maxTokenSize_def Default_simps)
  have t4: "tokens_spec (ArgsDelim ?j') (contents (Stream ?j')) = [''a'']"
    unfolding tokens_spec_def s4 by (simp add: chomp_def CR_def)
  have r4: "?j'\<lparr>skipToken := True, Stream := \<lparr>pending = [], closing = EOF\<rparr>\<rparr>
      = (Default \<lparr>pending = [], closing = EOF\<rparr>)\<lparr>skipToken := True\<rparr>"
    unfolding Default_def input_def by simp
  have 4: "Args ?j' [] = Inr ([''a''], (Default \<lparr>pending = [], closing = EOF\<rparr>)\<lparr>skipToken := True\<rparr>)"
    using Args_delim [of ?j'] f4 r4 unfolding t4 s4
    by (simp add: Default_simps steady_def)
  from 1 2 3 4 show ?thesis by (intro conjI)
qed

text \<open>
  C8, amended: reading is destructive.  On a fallback stream that is used up, \<open>Args\<close>
  without arguments returns no token, whatever the delimiter and whatever value an earlier
  call has left in \<open>skipToken\<close>, which every call sets anew.  And on a stream that is
  steady, and whose segments fit the largest buffer of the scanner where there is a
  delimiter, the first call returns the tokens of the content and uses the stream up, with
  the empty delimiter as with another, so that a second call on the configuration that the
  first call leaves returns the empty sequence.
\<close>

theorem Args_again_on_exhausted_stream:
  "(pending (Stream inp) = [] \<longrightarrow>
      Args inp [] = Inr ([], inp\<lparr>skipToken := (ArgsDelim inp \<noteq> [])\<rparr>)) \<and>
   (steady (Stream inp) \<and>
    (ArgsDelim inp \<noteq> [] \<longrightarrow> fits (ArgsDelim inp) (contents (Stream inp))) \<longrightarrow>
      (\<exists>inp1 inp2.
         Args inp [] =
           Inr (if ArgsDelim inp = [] then code_points (contents (Stream inp))
                else tokens_spec (ArgsDelim inp) (contents (Stream inp)), inp1) \<and>
         pending (Stream inp1) = [] \<and> Args inp1 [] = Inr ([], inp2) \<and>
         pending (Stream inp2) = []))"
proof -
  have once: "Args i [] = Inr ([], i\<lparr>skipToken := (ArgsDelim i \<noteq> [])\<rparr>)"
    if p: "pending (Stream i) = []" for i
  proof -
    have st: "\<lparr>pending = [], closing = closing (Stream i)\<rparr> = Stream i"
      using p by (cases "Stream i") simp
    have c: "contents (Stream i) = []" using p by (simp add: contents_def)
    have sd: "steady (Stream i)" using p by (simp add: steady_def)
    show ?thesis
    proof (cases "ArgsDelim i = []")
      case True
      have "code_points [] = []" by (subst code_points.simps) simp
      with Args_code_points [OF True sd] True show ?thesis by (simp add: st c)
    next
      case False
      have sp: "splitOn (ArgsDelim i) [] = [[]]" by (subst splitOn.simps) simp
      have "fits (ArgsDelim i) (contents (Stream i))"
        by (simp add: fits_def c sp maxTokenSize_def)
      from Args_delim [OF False sd this]
      have "Args i [] = Inr (tokens_spec (ArgsDelim i) [],
          i\<lparr>skipToken := (last (splitOn (ArgsDelim i) []) = []),
             Stream := \<lparr>pending = [], closing = closing (Stream i)\<rparr>\<rparr>)"
        by (simp add: c)
      with False show ?thesis by (simp add: st sp tokens_spec_def)
    qed
  qed
  show ?thesis
  proof (intro conjI impI)
    assume "pending (Stream inp) = []"
    then show "Args inp [] = Inr ([], inp\<lparr>skipToken := (ArgsDelim inp \<noteq> [])\<rparr>)"
      by (rule once)
  next
    assume a: "steady (Stream inp) \<and>
      (ArgsDelim inp \<noteq> [] \<longrightarrow> fits (ArgsDelim inp) (contents (Stream inp)))"
    let ?toks = "if ArgsDelim inp = [] then code_points (contents (Stream inp))
                 else tokens_spec (ArgsDelim inp) (contents (Stream inp))"
    let ?inp1 = "inp\<lparr>skipToken := (ArgsDelim inp \<noteq> [] \<and>
                                    last (splitOn (ArgsDelim inp) (contents (Stream inp))) = []),
                     Stream := \<lparr>pending = [], closing = closing (Stream inp)\<rparr>\<rparr>"
    have first: "Args inp [] = Inr (?toks, ?inp1)"
    proof (cases "ArgsDelim inp = []")
      case True
      with Args_code_points [OF True] a show ?thesis by simp
    next
      case False
      with Args_delim [OF False] a show ?thesis by simp
    qed
    have p1: "pending (Stream ?inp1) = []" by simp
    from once [OF p1] have second: "Args ?inp1 [] = Inr ([], ?inp1\<lparr>skipToken := (ArgsDelim ?inp1 \<noteq> [])\<rparr>)" .
    have "pending (Stream (?inp1\<lparr>skipToken := (ArgsDelim ?inp1 \<noteq> [])\<rparr>)) = []" by simp
    with first p1 second
    show "\<exists>inp1 inp2. Args inp [] = Inr (?toks, inp1) \<and>
         pending (Stream inp1) = [] \<and> Args inp1 [] = Inr ([], inp2) \<and> pending (Stream inp2) = []"
      by blast
  qed
qed

theorem Args_again_on_exhausted_stream_witness:
  "Args ((Default \<lparr>pending = [], closing = EOF\<rparr>)\<lparr>skipToken := True\<rparr>) []
     = Inr ([], (Default \<lparr>pending = [], closing = EOF\<rparr>)\<lparr>skipToken := True\<rparr>) \<and>
   (\<exists>inp1 inp2.
      Args (Default \<lparr>pending = [''a'' @ [LF] @ ''b'' @ [LF]], closing = EOF\<rparr>) []
        = Inr ([''a'', ''b''], inp1) \<and>
      pending (Stream inp1) = [] \<and> Args inp1 [] = Inr ([], inp2) \<and> pending (Stream inp2) = []) \<and>
   (\<exists>inp1 inp2.
      Args ((Default \<lparr>pending = [''ab''], closing = EOF\<rparr>)\<lparr>ArgsDelim := []\<rparr>) []
        = Inr ([''a'', ''b''], inp1) \<and>
      pending (Stream inp1) = [] \<and> Args inp1 [] = Inr ([], inp2) \<and> pending (Stream inp2) = [])"
proof -
  let ?i0 = "(Default \<lparr>pending = [], closing = EOF\<rparr>)\<lparr>skipToken := True\<rparr>"
  let ?i1 = "Default \<lparr>pending = [''a'' @ [LF] @ ''b'' @ [LF]], closing = EOF\<rparr>"
  let ?i2 = "(Default \<lparr>pending = [''ab''], closing = EOF\<rparr>)\<lparr>ArgsDelim := []\<rparr>"
  have s1: "splitOn (ArgsDelim ?i1) (contents (Stream ?i1)) = [''a'', ''b'', []]"
    by (simp add: Default_simps contents_def splitOn.simps LF_def)
  have f: "fits (ArgsDelim ?i1) (contents (Stream ?i1))"
    unfolding fits_def s1 by (simp add: maxTokenSize_def Default_simps)
  have t: "tokens_spec (ArgsDelim ?i1) (contents (Stream ?i1)) = [''a'', ''b'']"
    unfolding tokens_spec_def s1 by (simp add: chomp_def CR_def)
  have t2: "code_points (contents (Stream ?i2)) = [''a'', ''b'']"
    by (simp add: Default_simps contents_def code_points.simps rune_len_def)
  have "Args ?i0 [] = Inr ([], ?i0)"
    using Args_again_on_exhausted_stream [of ?i0] by (simp add: Default_simps)
  moreover
  have "\<exists>inp1 inp2. Args ?i1 [] = Inr ([''a'', ''b''], inp1) \<and>
      pending (Stream inp1) = [] \<and> Args inp1 [] = Inr ([], inp2) \<and> pending (Stream inp2) = []"
    using Args_again_on_exhausted_stream [of ?i1] f
    unfolding t by (simp add: Default_simps steady_def)
  moreover
  have "\<exists>inp1 inp2. Args ?i2 [] = Inr ([''a'', ''b''], inp1) \<and>
      pending (Stream inp1) = [] \<and> Args inp1 [] = Inr ([], inp2) \<and> pending (Stream inp2) = []"
    using Args_again_on_exhausted_stream [of ?i2]
    unfolding t2 by (simp add: Default_simps steady_def)
  ultimately show ?thesis by (intro conjI)
qed

section \<open>A stream that fails\<close>

text \<open>
  Two scanners are alike when they differ at most in which error they hold and in which
  error their streams will report at the end.
\<close>

definition alike :: "Scanner \<Rightarrow> Scanner \<Rightarrow> bool" where
  "alike s t =
     (pending (r s) = pending (r t) \<and> buflen s = buflen t \<and> start s = start t \<and>
      window s = window t \<and> token s = token t \<and> (err s = None) = (err t = None) \<and>
      empties s = empties t \<and> isDone s = isDone t)"

text \<open>
  The results of two runs are alike when the scanners are, and the states of the split
  function are related by \<open>R\<close>.
\<close>

fun step_alike :: "('st \<Rightarrow> 'st \<Rightarrow> bool) \<Rightarrow> 'st step \<Rightarrow> 'st step \<Rightarrow> bool" where
  "step_alike R (Return b st s) (Return b' st' t) = (b = b' \<and> R st st' \<and> alike s t)"
| "step_alike R (Continue st s) (Continue st' t) = (R st st' \<and> alike s t)"
| "step_alike R _ _ = False"

fun result_alike ::
  "('st \<Rightarrow> 'st \<Rightarrow> bool) \<Rightarrow> panic + (bool \<times> 'st \<times> Scanner) \<Rightarrow> panic + (bool \<times> 'st \<times> Scanner) \<Rightarrow> bool"
where
  "result_alike R (Inl p) (Inl q) = (p = q)"
| "result_alike R (Inr (b, st, s)) (Inr (b', st', t)) = (b = b' \<and> R st st' \<and> alike s t)"
| "result_alike R _ _ = False"

text \<open>A split function preserves \<open>R\<close>: on related states it returns the same, and related states.\<close>

definition preserves :: "('st \<Rightarrow> 'st \<Rightarrow> bool) \<Rightarrow> 'st SplitFunc \<Rightarrow> bool" where
  "preserves R split =
     (\<forall>st st' data eof. R st st' \<longrightarrow>
        rel_sum (=) (\<lambda>(res, st1) (res', st1'). res = res' \<and> R st1 st1')
          (split st data eof) (split st' data eof))"

lemma setErr_alike: "alike s t \<Longrightarrow> alike (setErr e s) (setErr e' t)"
  by (auto simp: alike_def setErr_def)

lemma tryToken_alike:
  assumes "alike s t" and "preserves R split" and "R st st2"
  shows "rel_sum (=) (step_alike R) (tryToken split st s) (tryToken split st2 t)"
proof -
  from assms(1) have w: "window s = window t" and e: "(err s \<noteq> None) = (err t \<noteq> None)"
    by (simp_all add: alike_def)
  from assms(2,3)
  have sp: "rel_sum (=) (\<lambda>(res, st1) (res', st1'). res = res' \<and> R st1 st1')
      (split st (window t) (err t \<noteq> None)) (split st2 (window t) (err t \<noteq> None))"
    unfolding preserves_def by blast
  have eq: "split st (window s) (err s \<noteq> None) = split st (window t) (err t \<noteq> None)"
    by (simp only: w e)
  show ?thesis
  proof (cases "split st (window t) (err t \<noteq> None)")
    case (Inl p)
    with sp have "split st2 (window t) (err t \<noteq> None) = Inl p"
      by (cases "split st2 (window t) (err t \<noteq> None)") auto
    with Inl show ?thesis unfolding tryToken_def eq by simp
  next
    case (Inr res)
    obtain advance tok er st' where res: "res = ((advance, tok, er), st')"
      by (cases res) auto
    with Inr sp obtain st2' where r2: "split st2 (window t) (err t \<noteq> None) = Inr ((advance, tok, er), st2')"
      and rel: "R st' st2'"
      by (cases "split st2 (window t) (err t \<noteq> None)") auto
    show ?thesis
    proof (cases er)
      case (Some e')
      with Inr res r2 rel assms(1) setErr_alike [OF assms(1), of e' e'] show ?thesis
        unfolding tryToken_def eq by (simp add: alike_def)
    next
      case None
      with Inr res r2 rel assms(1) setErr_alike [OF assms(1), of ErrAdvanceTooFar ErrAdvanceTooFar]
      show ?thesis
        unfolding tryToken_def eq by (auto simp: alike_def Let_def)
    qed
  qed
qed

lemma shift_alike: "alike s t \<Longrightarrow> alike (shift s) (shift t)"
  by (auto simp: alike_def shift_def)

lemma grow_alike: "alike s t \<Longrightarrow> rel_sum alike alike (grow s) (grow t)"
  using setErr_alike [of s t ErrTooLong ErrTooLong]
  by (auto simp: grow_def Let_def) (auto simp: alike_def)

lemma Read_alike:
  assumes "pending rd = pending rd'"
  shows "fst (Read rd cap) = fst (Read rd' cap) \<and>
         (fst (snd (Read rd cap)) = None) = (fst (snd (Read rd' cap)) = None) \<and>
         pending (snd (snd (Read rd cap))) = pending (snd (snd (Read rd' cap)))"
  using assms by (auto simp: Read_def split: list.splits)

lemma fill_alike: "alike s t \<Longrightarrow> alike (fill s k) (fill t k)"
proof (induction s k arbitrary: t rule: fill.induct)
  case (1 s loop)
  let ?cap = "buflen s - (start s + length (window s))"
  from "1.prems" have cap: "buflen t - (start t + length (window t)) = ?cap"
    by (simp add: alike_def)
  obtain bs e rd where rs: "Read (r s) ?cap = (bs, e, rd)" by (cases "Read (r s) ?cap") auto
  obtain bs' e' rd' where rt: "Read (r t) ?cap = (bs', e', rd')" by (cases "Read (r t) ?cap") auto
  from "1.prems" have "pending (r s) = pending (r t)" by (simp add: alike_def)
  from Read_alike [OF this, of ?cap] rs rt
  have same: "bs' = bs" "(e = None) = (e' = None)" "pending rd = pending rd'"
    by simp_all
  let ?s1 = "s\<lparr>r := rd, window := window s @ bs\<rparr>"
  let ?t1 = "t\<lparr>r := rd', window := window t @ bs\<rparr>"
  from "1.prems" same have a1: "alike ?s1 ?t1" by (simp add: alike_def)
  show ?case
  proof (cases e)
    case (Some x)
    with same obtain x' where x': "e' = Some x'" by (cases e') auto
    have "fill s loop = setErr x ?s1" using rs Some by (subst fill.simps) simp
    moreover have "fill t loop = setErr x' ?t1"
      using rt x' same cap by (subst fill.simps) simp
    ultimately show ?thesis using setErr_alike [OF a1] by simp
  next
    case None
    with same have n': "e' = None" by simp
    show ?thesis
    proof (cases "length bs > 0")
      case True
      have "fill s loop = ?s1\<lparr>empties := 0\<rparr>" using rs None True by (subst fill.simps) simp
      moreover have "fill t loop = ?t1\<lparr>empties := 0\<rparr>"
        using rt n' same cap True by (subst fill.simps) simp
      ultimately show ?thesis using a1 by (simp add: alike_def)
    next
      case False
      show ?thesis
      proof (cases "loop + 1 > maxConsecutiveEmptyReads")
        case True
        have "fill s loop = setErr ErrNoProgress ?s1"
          using rs None False True by (subst fill.simps) simp
        moreover have "fill t loop = setErr ErrNoProgress ?t1"
          using rt n' same cap False True by (subst fill.simps) simp
        ultimately show ?thesis using setErr_alike [OF a1] by simp
      next
        case more: False
        have "fill s loop = fill ?s1 (loop + 1)"
          using rs None False more by (subst fill.simps) simp
        moreover have "fill t loop = fill ?t1 (loop + 1)"
          using rt n' same cap False more by (subst fill.simps) simp
        moreover have "alike (fill ?s1 (loop + 1)) (fill ?t1 (loop + 1))"
          using "1.IH" [OF rs [symmetric] refl refl None _ _ a1] False more by simp
        ultimately show ?thesis by simp
      qed
    qed
  qed
qed

lemma scanLoop_alike:
  "alike s t \<Longrightarrow> preserves R split \<Longrightarrow> R st st2 \<Longrightarrow>
     result_alike R (scanLoop split st s) (scanLoop split st2 t)"
proof (induction split st s arbitrary: t st2 rule: scanLoop.induct)
  case (1 split st s)
  define fs where "fs = (if 0 < length (window s) \<or> err s \<noteq> None then tryToken split st s
                         else Inr (Continue st s))"
  define ft where "ft = (if 0 < length (window t) \<or> err t \<noteq> None then tryToken split st2 t
                         else Inr (Continue st2 t))"
  have us: "scanLoop split st s =
     (case fs of
        Inl p \<Rightarrow> Inl p
      | Inr (Return b st' s') \<Rightarrow> Inr (b, st', s')
      | Inr (Continue st' s') \<Rightarrow>
          if err s' \<noteq> None then Inr (False, st', s'\<lparr>start := 0, window := []\<rparr>)
          else
            (case grow (shift s') of
               Inl s'' \<Rightarrow> Inr (False, st', s'')
             | Inr s'' \<Rightarrow> scanLoop split st' (fill s'' 0)))"
    unfolding fs_def by (rule scanLoop.simps)
  have ut: "scanLoop split st2 t =
     (case ft of
        Inl p \<Rightarrow> Inl p
      | Inr (Return b st' s') \<Rightarrow> Inr (b, st', s')
      | Inr (Continue st' s') \<Rightarrow>
          if err s' \<noteq> None then Inr (False, st', s'\<lparr>start := 0, window := []\<rparr>)
          else
            (case grow (shift s') of
               Inl s'' \<Rightarrow> Inr (False, st', s'')
             | Inr s'' \<Rightarrow> scanLoop split st' (fill s'' 0)))"
    unfolding ft_def by (rule scanLoop.simps)
  from "1.prems"(1) have c: "(0 < length (window s) \<or> err s \<noteq> None) = (0 < length (window t) \<or> err t \<noteq> None)"
    by (simp add: alike_def)
  have f: "rel_sum (=) (step_alike R) fs ft"
    unfolding fs_def ft_def using tryToken_alike [OF "1.prems"] "1.prems"(1,3) c
    by (auto simp del: length_greater_0_conv)
  show ?case
  proof (cases fs)
    case (Inl p)
    with f have "ft = Inl p" by (cases ft) auto
    with Inl us ut show ?thesis by simp
  next
    case (Inr x)
    with f obtain y where y: "ft = Inr y" "step_alike R x y" by (cases ft) auto
    show ?thesis
    proof (cases x)
      case (Return b st1 s1)
      with y obtain st1' t1 where "y = Return b st1' t1" "R st1 st1'" "alike s1 t1"
        by (cases y) auto
      with Inr Return y us ut show ?thesis by simp
    next
      case (Continue st1 s1)
      with y obtain st1' t1 where t1: "y = Continue st1' t1" "alike s1 t1" and r1: "R st1 st1'"
        by (cases y) auto
      then have e1: "(err s1 \<noteq> None) = (err t1 \<noteq> None)" by (simp add: alike_def)
      show ?thesis
      proof (cases "err s1 \<noteq> None")
        case True
        with e1 Inr Continue y t1 r1 us ut show ?thesis by (auto simp: alike_def)
      next
        case noerr: False
        from grow_alike [OF shift_alike [OF t1(2)]]
        have g: "rel_sum alike alike (grow (shift s1)) (grow (shift t1))" .
        show ?thesis
        proof (cases "grow (shift s1)")
          case (Inl s2)
          with g obtain t2 where "grow (shift t1) = Inl t2" "alike s2 t2"
            by (cases "grow (shift t1)") auto
          with Inl noerr e1 Inr Continue y t1 r1 us ut show ?thesis by simp
        next
          case gs: (Inr s2)
          with g obtain t2 where t2: "grow (shift t1) = Inr t2" "alike s2 t2"
            by (cases "grow (shift t1)") auto
          have "result_alike R (scanLoop split st1 (fill s2 0)) (scanLoop split st1' (fill t2 0))"
            using "1.IH" [OF Inr [unfolded fs_def] Continue noerr gs fill_alike [OF t2(2)]
                "1.prems"(2) r1] .
          with gs t2 noerr e1 Inr Continue y t1 us ut show ?thesis by simp
        qed
      qed
    qed
  qed
qed

lemma Scan_alike:
  "alike s t \<Longrightarrow> preserves R split \<Longrightarrow> R st st2 \<Longrightarrow>
     result_alike R (Scan split st s) (Scan split st2 t)"
  using scanLoop_alike [of s t R split st st2] by (auto simp: Scan_def alike_def)

text \<open>
  Two configurations that differ at most in their streams; \<open>scanArgs\<close> looks at nothing
  else, and changes nothing else.
\<close>

definition same_config :: "Input \<Rightarrow> Input \<Rightarrow> bool" where
  "same_config i j =
     (Literal i = Literal j \<and> ArgsDelim i = ArgsDelim j \<and> ReadDelim i = ReadDelim j \<and>
      skipToken i = skipToken j)"

lemma scanArgs_preserves: "preserves same_config scanArgs"
  unfolding preserves_def
proof (intro allI impI)
  fix i j :: Input and data eof
  assume "same_config i j"
  then show "rel_sum (=) (\<lambda>(res, st1) (res', st1'). res = res' \<and> same_config st1 st1')
      (scanArgs i data eof) (scanArgs j data eof)"
    by (cases "ScanRunes data eof"; cases "findDelim (ArgsDelim j) data 0")
       (auto simp: scanArgs_def same_config_def Let_def)
qed

lemma scanTokens_alike:
  "alike s t \<Longrightarrow> same_config inp inp2 \<Longrightarrow>
     rel_sum (=) (\<lambda>(a, i, s') (b, j, t'). a = b \<and> same_config i j \<and> alike s' t')
       (scanTokens inp s a) (scanTokens inp2 t a)"
proof (induction inp s a arbitrary: t inp2 rule: scanTokens.induct)
  case (1 inp s a)
  from Scan_alike [OF "1.prems"(1) scanArgs_preserves "1.prems"(2)]
  have sa: "result_alike same_config (Scan scanArgs inp s) (Scan scanArgs inp2 t)" .
  show ?case
  proof (cases "Scan scanArgs inp s")
    case (Inl p)
    with sa have "Scan scanArgs inp2 t = Inl p" by (cases "Scan scanArgs inp2 t") auto
    with Inl show ?thesis
      by (subst scanTokens.simps, subst (2) scanTokens.simps) simp
  next
    case (Inr x)
    obtain ok inp1 s1 where x: "x = (ok, inp1, s1)" by (cases x) auto
    with Inr sa obtain inp1' t1 where t1: "Scan scanArgs inp2 t = Inr (ok, inp1', t1)" "alike s1 t1"
      and c1: "same_config inp1 inp1'"
      by (cases "Scan scanArgs inp2 t") auto
    from t1(2) have tx: "Text s1 = Text t1" by (simp add: Text_def alike_def)
    from c1 have sk: "skipToken inp1' = skipToken inp1" by (simp add: same_config_def)
    show ?thesis
    proof (cases ok)
      case False
      with Inr x t1 c1 show ?thesis
        by (subst scanTokens.simps, subst (2) scanTokens.simps) simp
    next
      case True
      let ?a = "if \<not> skipToken inp1 then a @ [Text s1] else a"
      have "scanTokens inp s a = scanTokens inp1 s1 ?a"
        using Inr x True by (subst scanTokens.simps) simp
      moreover have "scanTokens inp2 t a = scanTokens inp1' t1 ?a"
        using t1 True tx sk by (subst scanTokens.simps) simp
      moreover have "rel_sum (=) (\<lambda>(a, i, s') (b, j, t'). a = b \<and> same_config i j \<and> alike s' t')
          (scanTokens inp1 s1 ?a) (scanTokens inp1' t1 ?a)"
        using "1.IH" [OF Inr x [symmetric] _ True t1(2) c1] x by simp
      ultimately show ?thesis by simp
    qed
  qed
qed

text \<open>\<open>Args\<close> never panics.\<close>

lemma tryToken_scanArgs_no_panic:
  assumes "0 < length (window s) \<or> err s \<noteq> None"
  shows "tryToken scanArgs inp s \<noteq> Inl p"
proof (cases "scanArgs inp (window s) (err s \<noteq> None)")
  case (Inl q)
  then have "ScanRunes (window s) (err s \<noteq> None) = Inl q"
    by (auto simp: scanArgs_def Let_def split: if_splits sum.splits option.splits)
  with assms show ?thesis
    by (auto simp: ScanRunes_def Let_def split: if_splits)
next
  case (Inr x)
  obtain adv tok e inp' where x: "x = ((adv, tok, e), inp')" by (cases x) auto
  show ?thesis
  proof (cases "e = None \<and> tok \<noteq> None")
    case True
    then obtain tk where "tok = Some tk" by auto
    with scanArgs_advance [of inp "window s" "err s \<noteq> None" adv tk inp'] Inr x True
    have "0 < adv" by simp
    with Inr x True show ?thesis
      by (auto simp: tryToken_def Let_def)
  next
    case False
    with Inr x show ?thesis
      by (auto simp: tryToken_def Let_def split: option.splits)
  qed
qed

lemma scanLoop_scanArgs_no_panic: "scanLoop scanArgs inp s \<noteq> Inl p"
proof (induction "scanArgs" inp s rule: scanLoop.induct)
  case (1 st s)
  define fs where "fs = (if 0 < length (window s) \<or> err s \<noteq> None then tryToken scanArgs st s
                         else Inr (Continue st s))"
  have us: "scanLoop scanArgs st s =
     (case fs of
        Inl p \<Rightarrow> Inl p
      | Inr (Return b st' s') \<Rightarrow> Inr (b, st', s')
      | Inr (Continue st' s') \<Rightarrow>
          if err s' \<noteq> None then Inr (False, st', s'\<lparr>start := 0, window := []\<rparr>)
          else
            (case grow (shift s') of
               Inl s'' \<Rightarrow> Inr (False, st', s'')
             | Inr s'' \<Rightarrow> scanLoop scanArgs st' (fill s'' 0)))"
    unfolding fs_def by (rule scanLoop.simps)
  have "fs \<noteq> Inl q" for q
    unfolding fs_def using tryToken_scanArgs_no_panic [of s st q]
    by (auto simp del: length_greater_0_conv)
  then obtain x where x: "fs = Inr x" by (cases fs) auto
  show ?case
  proof (cases x)
    case (Return b st1 s1)
    with x us show ?thesis by simp
  next
    case (Continue st1 s1)
    show ?thesis
    proof (cases "err s1 \<noteq> None")
      case True
      with x Continue us show ?thesis by simp
    next
      case noerr: False
      show ?thesis
      proof (cases "grow (shift s1)")
        case (Inl s2)
        with noerr x Continue us show ?thesis by simp
      next
        case (Inr s2)
        from "1.hyps" [OF x [unfolded fs_def] Continue noerr Inr]
        have "scanLoop scanArgs st1 (fill s2 0) \<noteq> Inl p" .
        with Inr noerr x Continue us show ?thesis by simp
      qed
    qed
  qed
qed

lemma scanTokens_no_panic: "scanTokens inp s a \<noteq> Inl p"
proof (induction inp s a rule: scanTokens.induct)
  case (1 inp s a)
  have "Scan scanArgs inp s \<noteq> Inl q" for q
    using scanLoop_scanArgs_no_panic [of inp s q] by (simp add: Scan_def)
  then obtain ok inp1 s1 where x: "Scan scanArgs inp s = Inr (ok, inp1, s1)"
    by (cases "Scan scanArgs inp s") auto
  show ?case
  proof (cases ok)
    case True
    with "1.IH" [OF x refl refl True] x show ?thesis
      by (subst scanTokens.simps) simp
  next
    case False
    with x show ?thesis by (subst scanTokens.simps) simp
  qed
qed

lemma Args_no_panic: "Args inp args \<noteq> Inl p"
  using scanTokens_no_panic [of "inp\<lparr>skipToken := False\<rparr>" "NewScanner (Stream inp)" "[]" p]
  by (auto simp: Args_def Let_def split: sum.splits)

text \<open>
  C7: a failure of the fallback stream does not reach the caller of \<open>Args\<close>.  On a
  stream that delivers some pieces and then fails with any error \<open>e\<close>, \<open>Args\<close> without
  arguments returns tokens, and the same tokens as on the stream that delivers the same
  pieces and then ends with \<open>EOF\<close>; the two calls leave the same \<open>skipToken\<close> and
  the same, used or unused, pieces of the stream.
\<close>

theorem Args_read_failure_as_end_of_stream:
  "\<exists>toks inp1 inp2.
      Args (inp\<lparr>Stream := \<lparr>pending = cs, closing = e\<rparr>\<rparr>) [] = Inr (toks, inp1) \<and>
      Args (inp\<lparr>Stream := \<lparr>pending = cs, closing = EOF\<rparr>\<rparr>) [] = Inr (toks, inp2) \<and>
      skipToken inp1 = skipToken inp2 \<and> pending (Stream inp1) = pending (Stream inp2)"
proof -
  let ?i = "inp\<lparr>Stream := \<lparr>pending = cs, closing = e\<rparr>, skipToken := False\<rparr>"
  let ?j = "inp\<lparr>Stream := \<lparr>pending = cs, closing = EOF\<rparr>, skipToken := False\<rparr>"
  let ?s = "NewScanner \<lparr>pending = cs, closing = e\<rparr>"
  let ?t = "NewScanner \<lparr>pending = cs, closing = EOF\<rparr>"
  have a: "alike ?s ?t" by (simp add: alike_def NewScanner_def)
  have c: "same_config ?i ?j" by (simp add: same_config_def)
  from scanTokens_alike [OF a c, of "[]"]
  have rel: "rel_sum (=) (\<lambda>(a, i, s') (b, j, t'). a = b \<and> same_config i j \<and> alike s' t')
      (scanTokens ?i ?s []) (scanTokens ?j ?t [])" .
  obtain toks i1 s1 where r1: "scanTokens ?i ?s [] = Inr (toks, i1, s1)"
    using scanTokens_no_panic [of ?i ?s "[]"]
    by (cases "scanTokens ?i ?s []") auto
  with rel obtain i2 s2 where r2: "scanTokens ?j ?t [] = Inr (toks, i2, s2)"
    and same: "same_config i1 i2" "alike s1 s2"
    by (cases "scanTokens ?j ?t []") auto
  have "Args (inp\<lparr>Stream := \<lparr>pending = cs, closing = e\<rparr>\<rparr>) [] = Inr (toks, i1\<lparr>Stream := r s1\<rparr>)"
    using r1 by (simp add: Args_def Let_def)
  moreover
  have "Args (inp\<lparr>Stream := \<lparr>pending = cs, closing = EOF\<rparr>\<rparr>) [] = Inr (toks, i2\<lparr>Stream := r s2\<rparr>)"
    using r2 by (simp add: Args_def Let_def)
  moreover have "skipToken (i1\<lparr>Stream := r s1\<rparr>) = skipToken (i2\<lparr>Stream := r s2\<rparr>)"
    "pending (Stream (i1\<lparr>Stream := r s1\<rparr>)) = pending (Stream (i2\<lparr>Stream := r s2\<rparr>))"
    using same by (simp_all add: same_config_def alike_def)
  ultimately show ?thesis by blast
qed

theorem Args_read_failure_as_end_of_stream_witness:
  "\<exists>inp1. Args (Default \<lparr>pending = [''a'' @ [LF], ''b''], closing = ErrIO\<rparr>) []
           = Inr ([''a'', ''b''], inp1)"
proof -
  let ?i = "Default \<lparr>pending = [], closing = EOF\<rparr>"
  let ?j = "?i\<lparr>Stream := \<lparr>pending = [''a'' @ [LF], ''b''], closing = EOF\<rparr>\<rparr>"
  have s: "splitOn (ArgsDelim ?j) (contents (Stream ?j)) = [''a'', ''b'']"
    by (simp add: Default_simps contents_def splitOn.simps LF_def)
  have f: "fits (ArgsDelim ?j) (contents (Stream ?j))"
    unfolding fits_def s by (simp add: maxTokenSize_def Default_simps)
  have t: "tokens_spec (ArgsDelim ?j) (contents (Stream ?j)) = [''a'', ''b'']"
    unfolding tokens_spec_def s by (simp add: chomp_def CR_def)
  have "\<exists>inp2. Args ?j [] = Inr ([''a'', ''b''], inp2)"
    using Args_delim [of ?j] f unfolding t by (simp add: Default_simps steady_def)
  moreover have d: "?i\<lparr>Stream := \<lparr>pending = [''a'' @ [LF], ''b''], closing = ErrIO\<rparr>\<rparr>
      = Default \<lparr>pending = [''a'' @ [LF], ''b''], closing = ErrIO\<rparr>"
    unfolding Default_def input_def by simp
  ultimately show ?thesis
    using Args_read_failure_as_end_of_stream
      [where inp = ?i and cs = "[''a'' @ [LF], ''b'']" and e = ErrIO]
    unfolding d by auto
qed

section \<open>Copies of a configuration\<close>

text \<open>
  A Go value of type \<open>Input\<close> does not hold its delimiters and its stream: a field of
  type \<open>[]byte\<close> is a slice header (the address of a backing array and a length), and
  \<open>Stream\<close> is a reference to the stream.  Copying the struct, as \<open>Default\<close> does when
  it returns \<open>input\<close>, copies the headers and the reference, not what they point to.  To
  speak of copies, the memory is made explicit: the variables of type \<open>Input\<close>, the
  backing arrays and the streams, each by address.
\<close>

record slice =
  base :: nat
  len :: nat

record Input_struct =
  Stream_ref :: nat
  Literal_field :: bool
  ArgsDelim_slice :: slice
  ReadDelim_slice :: slice
  skipToken_field :: bool

record memory =
  structs :: "nat \<Rightarrow> Input_struct"
  arrays :: "nat \<Rightarrow> bytes"
  streams :: "nat \<Rightarrow> reader"

definition slice_bytes :: "memory \<Rightarrow> slice \<Rightarrow> bytes" where
  "slice_bytes m sl = take (len sl) (arrays m (base sl))"

text \<open>
  The configuration that the methods called on the variable at address \<open>p\<close> work with:
  the \<open>Input\<close> of the sections above.
\<close>

definition view :: "memory \<Rightarrow> nat \<Rightarrow> Input" where
  "view m p =
     (let x = structs m p
      in \<lparr>Stream = streams m (Stream_ref x), Literal = Literal_field x,
          ArgsDelim = slice_bytes m (ArgsDelim_slice x),
          ReadDelim = slice_bytes m (ReadDelim_slice x),
          skipToken = skipToken_field x\<rparr>)"

lemma view_fields:
  "Stream (view m p) = streams m (Stream_ref (structs m p))"
  "Literal (view m p) = Literal_field (structs m p)"
  "ArgsDelim (view m p) = slice_bytes m (ArgsDelim_slice (structs m p))"
  "ReadDelim (view m p) = slice_bytes m (ReadDelim_slice (structs m p))"
  "skipToken (view m p) = skipToken_field (structs m p)"
  by (simp_all add: view_def Let_def)

text \<open>
  The memory when the package is initialised: the variable \<open>input\<close> at address 0, with
  its two delimiters in arrays of their own and \<open>os.Stdin\<close> as its stream.
\<close>

definition input_addr :: nat where
  "input_addr = 0"

definition init_memory :: "reader \<Rightarrow> memory" where
  "init_memory stdin =
     \<lparr>structs = (\<lambda>p. \<lparr>Stream_ref = 0, Literal_field = False,
                          ArgsDelim_slice = \<lparr>base = 0, len = 1\<rparr>,
                          ReadDelim_slice = \<lparr>base = 1, len = 1\<rparr>,
                          skipToken_field = False\<rparr>),
      arrays = (\<lambda>a. if a = 0 then [LF] else '' ''),
      streams = (\<lambda>a. stdin)\<rparr>"

text \<open>The assignment \<open>q = p\<close> of one \<open>Input\<close> variable to another: a copy of the struct.\<close>

definition copy_Input :: "memory \<Rightarrow> nat \<Rightarrow> nat \<Rightarrow> memory" where
  "copy_Input m q p = m\<lparr>structs := (structs m)(q := structs m p)\<rparr>"

text \<open>\<open>q := Default()\<close>: the variable at \<open>q\<close> receives a copy of \<open>input\<close>.\<close>

definition Default_into :: "memory \<Rightarrow> nat \<Rightarrow> memory" where
  "Default_into m q = copy_Input m q input_addr"

text \<open>The assignments to the fields of the variable at \<open>q\<close>.\<close>

definition set_Stream :: "memory \<Rightarrow> nat \<Rightarrow> nat \<Rightarrow> memory" where
  "set_Stream m q ref = m\<lparr>structs := (structs m)(q := (structs m q)\<lparr>Stream_ref := ref\<rparr>)\<rparr>"

definition set_Literal :: "memory \<Rightarrow> nat \<Rightarrow> bool \<Rightarrow> memory" where
  "set_Literal m q v = m\<lparr>structs := (structs m)(q := (structs m q)\<lparr>Literal_field := v\<rparr>)\<rparr>"

definition set_ArgsDelim :: "memory \<Rightarrow> nat \<Rightarrow> slice \<Rightarrow> memory" where
  "set_ArgsDelim m q sl = m\<lparr>structs := (structs m)(q := (structs m q)\<lparr>ArgsDelim_slice := sl\<rparr>)\<rparr>"

definition set_ReadDelim :: "memory \<Rightarrow> nat \<Rightarrow> slice \<Rightarrow> memory" where
  "set_ReadDelim m q sl = m\<lparr>structs := (structs m)(q := (structs m q)\<lparr>ReadDelim_slice := sl\<rparr>)\<rparr>"

definition set_skipToken :: "memory \<Rightarrow> nat \<Rightarrow> bool \<Rightarrow> memory" where
  "set_skipToken m q v = m\<lparr>structs := (structs m)(q := (structs m q)\<lparr>skipToken_field := v\<rparr>)\<rparr>"

text \<open>
  The assignment \<open>s[k] = v\<close> to an element of a slice: it writes into the backing array,
  and panics when the index is out of range.
\<close>

definition store_elem :: "memory \<Rightarrow> slice \<Rightarrow> nat \<Rightarrow> char \<Rightarrow> panic + memory" where
  "store_elem m sl k v =
     (if k < len sl then Inr (m\<lparr>arrays := (arrays m)(base sl := (arrays m (base sl))[k := v])\<rparr>)
      else Inl IndexOutOfRange)"

text \<open>\<open>x.ArgsDelim[k] = v\<close> and \<open>x.ReadDelim[k] = v\<close> for the variable \<open>x\<close> at \<open>q\<close>.\<close>

definition store_ArgsDelim :: "memory \<Rightarrow> nat \<Rightarrow> nat \<Rightarrow> char \<Rightarrow> panic + memory" where
  "store_ArgsDelim m q k v = store_elem m (ArgsDelim_slice (structs m q)) k v"

definition store_ReadDelim :: "memory \<Rightarrow> nat \<Rightarrow> nat \<Rightarrow> char \<Rightarrow> panic + memory" where
  "store_ReadDelim m q k v = store_elem m (ReadDelim_slice (structs m q)) k v"

lemma view_frame:
  "structs m' p = structs m p \<Longrightarrow> arrays m' = arrays m \<Longrightarrow> streams m' = streams m \<Longrightarrow>
     view m' p = view m p"
  by (simp add: view_def slice_bytes_def Let_def)

lemma store_elem_arrays:
  "store_elem m sl k v = Inr m'' \<Longrightarrow>
     structs m'' = structs m \<and> streams m'' = streams m \<and>
     arrays m'' = (arrays m)(base sl := (arrays m (base sl))[k := v])"
  by (auto simp: store_elem_def split: if_splits)

text \<open>
  C9, as stated, fails: a copy shares more than its stream.  After \<open>q := Default()\<close>,
  the assignment \<open>q.ArgsDelim[0] = ';'\<close> changes the delimiter of the default
  configuration \<open>input\<close> itself, from which \<open>q\<close> was copied.
\<close>

theorem copy_shares_delimiter_arrays:
  "\<not> (\<forall>m p q k v m'. p \<noteq> q \<longrightarrow> store_ArgsDelim (copy_Input m q p) q k v = Inr m' \<longrightarrow>
         view m' p = view (copy_Input m q p) p)"
proof
  let ?m = "init_memory \<lparr>pending = [], closing = EOF\<rparr>"
  let ?m1 = "copy_Input ?m 1 0"
  let ?m2 = "?m1\<lparr>arrays := (arrays ?m1)(0 := '';'')\<rparr>"
  assume "\<forall>m p q k v m'. p \<noteq> q \<longrightarrow> store_ArgsDelim (copy_Input m q p) q k v = Inr m' \<longrightarrow>
         view m' p = view (copy_Input m q p) p"
  then have a: "(0 :: nat) \<noteq> 1 \<longrightarrow> store_ArgsDelim ?m1 1 0 (CHR '';'') = Inr ?m2 \<longrightarrow>
      view ?m2 0 = view ?m1 0"
    by blast
  have "store_ArgsDelim ?m1 1 0 (CHR '';'') = Inr ?m2"
    by (simp add: store_ArgsDelim_def store_elem_def copy_Input_def init_memory_def)
  with a have "view ?m2 0 = view ?m1 0" by simp
  then have "ArgsDelim (view ?m2 0) = ArgsDelim (view ?m1 0)" by simp
  moreover have "ArgsDelim (view ?m2 0) = '';''"
    by (simp add: view_fields slice_bytes_def copy_Input_def init_memory_def)
  moreover have "ArgsDelim (view ?m1 0) = [LF]"
    by (simp add: view_fields slice_bytes_def copy_Input_def init_memory_def)
  ultimately show False by (simp add: LF_def)
qed

text \<open>
  C9, amended: a copy is independent of the original as far as the fields themselves go.
  For two different variables \<open>p\<close> and \<open>q\<close> of type \<open>Input\<close>, the second a copy of
  the first, both give the same configuration; assigning to any field of \<open>q\<close> (a new
  stream, a new \<open>Literal\<close>, a new slice as \<open>ArgsDelim\<close> or \<open>ReadDelim\<close>, a new
  \<open>skipToken\<close>) leaves the configuration of \<open>p\<close> as it was.  But \<open>p\<close> and \<open>q\<close>
  share their stream and also the backing arrays of their delimiters: a byte stored into
  \<open>q.ArgsDelim\<close> or \<open>q.ReadDelim\<close> is stored into the delimiter of \<open>p\<close> too.
\<close>

theorem copy_independent_fields_shared_arrays:
  assumes "p \<noteq> q" and "m' = copy_Input m q p"
  shows "view m' q = view m p \<and> view m' p = view m p \<and>
         view (set_Stream m' q ref) p = view m' p \<and>
         view (set_Literal m' q b) p = view m' p \<and>
         view (set_ArgsDelim m' q sl) p = view m' p \<and>
         view (set_ReadDelim m' q sl) p = view m' p \<and>
         view (set_skipToken m' q b) p = view m' p \<and>
         Stream_ref (structs m' q) = Stream_ref (structs m' p) \<and>
         (\<forall>m''. store_ArgsDelim m' q k v = Inr m'' \<longrightarrow>
            ArgsDelim (view m'' p) = (ArgsDelim (view m' p))[k := v]) \<and>
         (\<forall>m''. store_ReadDelim m' q k v = Inr m'' \<longrightarrow>
            ReadDelim (view m'' p) = (ReadDelim (view m' p))[k := v])"
proof -
  have sq: "structs m' q = structs m p" and sp: "structs m' p = structs m p"
    and ar: "arrays m' = arrays m" and st: "streams m' = streams m"
    using assms by (simp_all add: copy_Input_def)
  have 1: "view m' q = view m p"
    by (simp add: view_def slice_bytes_def Let_def sq ar st)
  have 2: "view m' p = view m p"
    using sp ar st by (rule view_frame)
  have 3: "view (set_Stream m' q ref) p = view m' p"
    using assms(1) by (intro view_frame) (simp_all add: set_Stream_def)
  have 4: "view (set_Literal m' q b) p = view m' p"
    using assms(1) by (intro view_frame) (simp_all add: set_Literal_def)
  have 5: "view (set_ArgsDelim m' q sl) p = view m' p"
    using assms(1) by (intro view_frame) (simp_all add: set_ArgsDelim_def)
  have 6: "view (set_ReadDelim m' q sl) p = view m' p"
    using assms(1) by (intro view_frame) (simp_all add: set_ReadDelim_def)
  have 7: "view (set_skipToken m' q b) p = view m' p"
    using assms(1) by (intro view_frame) (simp_all add: set_skipToken_def)
  have 8: "Stream_ref (structs m' q) = Stream_ref (structs m' p)"
    by (simp add: sq sp)
  have 9: "ArgsDelim (view m'' p) = (ArgsDelim (view m' p))[k := v]"
    if "store_ArgsDelim m' q k v = Inr m''" for m''
  proof -
    from that have "store_elem m' (ArgsDelim_slice (structs m' p)) k v = Inr m''"
      by (simp add: store_ArgsDelim_def sq sp)
    from store_elem_arrays [OF this] show ?thesis
      by (simp add: view_fields slice_bytes_def take_update_swap)
  qed
  have 10: "ReadDelim (view m'' p) = (ReadDelim (view m' p))[k := v]"
    if "store_ReadDelim m' q k v = Inr m''" for m''
  proof -
    from that have "store_elem m' (ReadDelim_slice (structs m' p)) k v = Inr m''"
      by (simp add: store_ReadDelim_def sq sp)
    from store_elem_arrays [OF this] show ?thesis
      by (simp add: view_fields slice_bytes_def take_update_swap)
  qed
  from 1 2 3 4 5 6 7 8 9 10 show ?thesis by blast
qed

theorem copy_independent_fields_shared_arrays_witness:
  "view (set_ArgsDelim (Default_into (init_memory \<lparr>pending = [], closing = EOF\<rparr>) 1) 1 \<lparr>base = 1, len = 1\<rparr>) 0
     = view (init_memory \<lparr>pending = [], closing = EOF\<rparr>) 0 \<and>
   ArgsDelim (view (set_ArgsDelim (Default_into (init_memory \<lparr>pending = [], closing = EOF\<rparr>) 1) 1 \<lparr>base = 1, len = 1\<rparr>) 1)
     = '' '' \<and>
   (\<exists>m''. store_ArgsDelim (Default_into (init_memory \<lparr>pending = [], closing = EOF\<rparr>) 1) 1 0 (CHR '';'') = Inr m'' \<and>
      ArgsDelim (view m'' 0) = '';'')"
proof -
  let ?m = "init_memory \<lparr>pending = [], closing = EOF\<rparr>"
  let ?m1 = "Default_into ?m 1"
  have ne: "(0 :: nat) \<noteq> 1" by simp
  have c: "?m1 = copy_Input ?m 1 0" by (simp add: Default_into_def input_addr_def)
  note th = copy_independent_fields_shared_arrays
    [OF ne c, where sl = "\<lparr>base = 1, len = 1\<rparr>" and k = 0 and v = "CHR '';''"]
  from th have 1: "view (set_ArgsDelim ?m1 1 \<lparr>base = 1, len = 1\<rparr>) 0 = view ?m 0"
    by simp
  have 2: "ArgsDelim (view (set_ArgsDelim ?m1 1 \<lparr>base = 1, len = 1\<rparr>) 1) = '' ''"
    by (simp add: view_fields slice_bytes_def set_ArgsDelim_def init_memory_def
        Default_into_def copy_Input_def input_addr_def)
  have s: "store_ArgsDelim ?m1 1 0 (CHR '';'') = Inr (?m1\<lparr>arrays := (arrays ?m1)(0 := '';'')\<rparr>)"
    by (simp add: store_ArgsDelim_def store_elem_def Default_into_def copy_Input_def
        init_memory_def input_addr_def)
  have o: "ArgsDelim (view ?m1 0) = [LF]"
    by (simp add: view_fields slice_bytes_def Default_into_def copy_Input_def init_memory_def
        input_addr_def)
  from th s have "ArgsDelim (view (?m1\<lparr>arrays := (arrays ?m1)(0 := '';'')\<rparr>) 0)
      = (ArgsDelim (view ?m1 0))[0 := CHR '';'']"
    by blast
  with o have 3: "ArgsDelim (view (?m1\<lparr>arrays := (arrays ?m1)(0 := '';'')\<rparr>) 0) = '';''"
    by simp
  from 1 2 s 3 show ?thesis by blast
qed

end
